theory Spec2Isabelle
  imports Main "HOL-Library.AList"
begin

section \<open>Data model\<close>

text \<open>
  A mask is a numpy array of region identifiers. Every operation of
  \<^verbatim>\<open>mask_processing_functions.py\<close> works voxel by voxel, so the array is kept
  as the list of its voxels in C order (\<^verbatim>\<open>mask.ravel()\<close>). Voxels hold unsigned
  identifiers, \<open>0\<close> being the background; the element type is taken wide enough for
  every identifier of the atlas, so no assignment wraps around.
\<close>

type_synonym mask = "nat list"

text \<open>
  One entry of \<^verbatim>\<open>atlas.structures\<close>: the keys \<^verbatim>\<open>"id"\<close>, \<^verbatim>\<open>"name"\<close>
  and \<^verbatim>\<open>"acronym"\<close> of the dictionary the atlas library keeps per region.
\<close>

record atlas_structure =
  struct_id :: nat
  struct_name :: string
  struct_acronym :: string

text \<open>
  The atlas object comes from the BrainGlobe library. What the functions below use of it
  is the region hierarchy: a rooted tree with one structure per node
  (\<^verbatim>\<open>atlas.structures.tree\<close>, a treelib tree whose node identifier is the
  structure's id and whose tag is \<^verbatim>\<open>"<acronym> (<id>)"\<close>).
\<close>

datatype atlas = Region (node_structure: atlas_structure) (node_children: "atlas list")

text \<open>
  The exceptions raised: \<^verbatim>\<open>KeyError\<close> with the key that was missing (a name, or
  an id), treelib's \<^verbatim>\<open>NodeIDAbsentError\<close>, and the \<^verbatim>\<open>ValueError\<close> and
  \<^verbatim>\<open>RuntimeError\<close> of the module itself.
\<close>

datatype error =
    KeyError string
  | KeyError_id int
  | NodeIDAbsentError nat
  | ValueError
  | RuntimeError

text \<open>A row of the fragment table: the tuple appended to \<^verbatim>\<open>fragment_info\<close>.\<close>

type_synonym fragment = "nat \<times> string \<times> nat \<times> nat \<times> bool"

text \<open>A row of the label table: the dictionary appended to \<^verbatim>\<open>id_to_label\<close>.\<close>

record label_row =
  row_region_id :: nat
  row_region_name :: string
  row_region_acronym :: string

section \<open>numpy and string primitives\<close>

text \<open>\<^verbatim>\<open>np.unique(mask)\<close>: the distinct values, ascending.\<close>

definition np_unique :: "nat list \<Rightarrow> nat list" where
  "np_unique xs = sort (remdups xs)"

text \<open>\<^verbatim>\<open>mask[mask == old] = new\<close>, as a value.\<close>

definition assign_where :: "nat \<Rightarrow> nat \<Rightarrow> mask \<Rightarrow> mask" where
  "assign_where old new m = map (\<lambda>v. if v = old then new else v) m"

text \<open>
  \<^verbatim>\<open>cleaned_mask[(labeled == i)] = 0\<close>: the boolean index comes from another
  array of the same shape.
\<close>

definition assign_where_labeled :: "nat list \<Rightarrow> nat \<Rightarrow> nat \<Rightarrow> mask \<Rightarrow> mask" where
  "assign_where_labeled labeled i new m = map (\<lambda>(l, v). if l = i then new else v) (zip labeled m)"

text \<open>\<^verbatim>\<open>np.bincount(x)\<close>: how often each of \<open>0 .. max x\<close> occurs; empty for an empty array.\<close>

definition bincount :: "nat list \<Rightarrow> nat list" where
  "bincount xs = (if xs = [] then [] else map (count_list xs) [0..<Suc (Max (set xs))])"

text \<open>\<^verbatim>\<open>enumerate(xs, start=k)\<close>.\<close>

definition enumerate_from :: "nat \<Rightarrow> 'a list \<Rightarrow> (nat \<times> 'a) list" where
  "enumerate_from k xs = zip [k..<k + length xs] xs"

text \<open>Decimal rendering of an identifier inside an f-string.\<close>

fun str_nat :: "nat \<Rightarrow> string" where
  "str_nat n =
     (if n < 10 then [char_of (48 + n)]
      else str_nat (n div 10) @ [char_of (48 + n mod 10)])"

declare str_nat.simps [simp del]

text \<open>
  \<^verbatim>\<open>int(item)\<close> for a string, a character being a code point below 256:
  surrounding whitespace is dropped, a sign may come first, and what remains must be
  decimal digits, where single underscores may stand between digits. \<open>None\<close> is
  Python's \<^verbatim>\<open>ValueError\<close>.
\<close>

definition py_isspace :: "char \<Rightarrow> bool" where
  "py_isspace c =
     (let k = (of_char c :: nat)
      in (9 \<le> k \<and> k \<le> 13) \<or> (28 \<le> k \<and> k \<le> 32) \<or> k = 133 \<or> k = 160)"

definition py_isdigit :: "char \<Rightarrow> bool" where
  "py_isdigit c = (let k = (of_char c :: nat) in 48 \<le> k \<and> k \<le> 57)"

fun int_digits :: "bool \<Rightarrow> nat \<Rightarrow> string \<Rightarrow> nat option" where
  "int_digits after_digit acc [] = (if after_digit then Some acc else None)"
| "int_digits after_digit acc (c # cs) =
     (if py_isdigit c then int_digits True (10 * acc + (of_char c - 48)) cs
      else if c = CHR ''_'' \<and> after_digit then int_digits False acc cs
      else None)"

definition py_int :: "string \<Rightarrow> int option" where
  "py_int item =
     (case rev (dropWhile py_isspace (rev (dropWhile py_isspace item))) of
        [] \<Rightarrow> None
      | c # cs \<Rightarrow>
          if c = CHR ''-'' then map_option (\<lambda>n. - int n) (int_digits False 0 cs)
          else if c = CHR ''+'' then map_option int (int_digits False 0 cs)
          else map_option int (int_digits False 0 (c # cs)))"

section \<open>The atlas interface\<close>

text \<open>
  All nodes of the hierarchy, a node before its descendants. The structures are taken in
  this order wherever the library goes through them in the order of its structures file.
\<close>

fun subtrees :: "atlas \<Rightarrow> atlas list" where
  "subtrees (Region s cs) = Region s cs # concat (map subtrees cs)"

text \<open>\<^verbatim>\<open>atlas.structures.values()\<close>.\<close>

definition structures_values :: "atlas \<Rightarrow> atlas_structure list" where
  "structures_values a = map node_structure (subtrees a)"

text \<open>
  The two dictionaries behind \<^verbatim>\<open>atlas.structures\<close>. \<^verbatim>\<open>acronym_to_id_map\<close> is
  \<^verbatim>\<open>{r["acronym"]: r["id"] for r in structures_list}\<close> and \<^verbatim>\<open>data\<close> is filled
  by \<^verbatim>\<open>self.data[struct["id"]] = ...\<close> in the same order, so in both a later
  structure with the same key replaces an earlier one. The entry of \<open>data\<close> is kept here
  as the node of the hierarchy that carries the structure.
\<close>

definition acronym_to_id_map :: "atlas \<Rightarrow> string \<Rightarrow> nat option" where
  "acronym_to_id_map a =
     map_of (rev (map (\<lambda>s. (struct_acronym s, struct_id s)) (structures_values a)))"

definition structures_data :: "atlas \<Rightarrow> nat \<Rightarrow> atlas option" where
  "structures_data a = map_of (rev (map (\<lambda>n. (struct_id (node_structure n), n)) (subtrees a)))"

text \<open>
  \<^verbatim>\<open>atlas.structures[item]\<close>, the library's \<^verbatim>\<open>__getitem__\<close>:
  \<^verbatim>\<open>
  try:
      item = int(item)
  except ValueError:
      item = self.acronym_to_id_map[item]
  return self.data[int(item)]
  \<close>
  A name that reads as an integer is taken as a region id; any other name is looked up
  among the acronyms. A missing key raises \<^verbatim>\<open>KeyError\<close>.
\<close>

definition structures_node :: "atlas \<Rightarrow> string \<Rightarrow> error + atlas" where
  "structures_node a item =
     (case py_int item of
        Some i \<Rightarrow>
          (if i < 0 then Inl (KeyError_id i)
           else (case structures_data a (nat i) of
                   None \<Rightarrow> Inl (KeyError_id i)
                 | Some n \<Rightarrow> Inr n))
      | None \<Rightarrow>
          (case acronym_to_id_map a item of
             None \<Rightarrow> Inl (KeyError item)
           | Some i \<Rightarrow>
               (case structures_data a i of
                  None \<Rightarrow> Inl (KeyError_id (int i))
                | Some n \<Rightarrow> Inr n)))"

definition structures_getitem :: "atlas \<Rightarrow> string \<Rightarrow> error + atlas_structure" where
  "structures_getitem a item =
     (case structures_node a item of
        Inl e \<Rightarrow> Inl e
      | Inr n \<Rightarrow> Inr (node_structure n))"

text \<open>
  \<^verbatim>\<open>atlas.get_structure_descendants(structure)\<close>:
  \<^verbatim>\<open>
  structure = self._get_from_structure(structure, "acronym")
  descendants = []
  for struc in self.structures.keys():
      if structure in self.get_structure_ancestors(struc):
          descendants.append(self.structures[struc]["acronym"])
  return descendants
  \<close>
  The name is resolved to an acronym through \<^verbatim>\<open>atlas.structures\<close>; a region is
  listed when that acronym is among the acronyms of its ancestors. The flag of
  \<open>descendants_of_acronym\<close> says whether an ancestor of the current node has the acronym.
\<close>

fun descendants_of_acronym :: "string \<Rightarrow> bool \<Rightarrow> atlas \<Rightarrow> string list" where
  "descendants_of_acronym acr below (Region s cs) =
     (if below then [struct_acronym s] else [])
     @ concat (map (descendants_of_acronym acr (below \<or> struct_acronym s = acr)) cs)"

definition get_structure_descendants :: "atlas \<Rightarrow> string \<Rightarrow> error + string list" where
  "get_structure_descendants a item =
     (case structures_getitem a item of
        Inl e \<Rightarrow> Inl e
      | Inr s \<Rightarrow> Inr (descendants_of_acronym (struct_acronym s) False a))"

text \<open>
  \<^verbatim>\<open>tree.children(nid)\<close> of treelib: the child nodes of the node with that
  identifier, \<^verbatim>\<open>NodeIDAbsentError\<close> when the tree has no such node.
\<close>

definition tree_children :: "atlas \<Rightarrow> nat \<Rightarrow> error + atlas list" where
  "tree_children a nid =
     (case find (\<lambda>n. struct_id (node_structure n) = nid) (subtrees a) of
        None \<Rightarrow> Inl (NodeIDAbsentError nid)
      | Some n \<Rightarrow> Inr (node_children n))"

text \<open>
  \<^verbatim>\<open>child.tag.split(" ")[0]\<close>: the tag is the acronym, a space and the id in
  brackets, so its first word is the acronym up to its first space.
\<close>

definition tag_first_word :: "atlas \<Rightarrow> string" where
  "tag_first_word child = takeWhile (\<lambda>c. c \<noteq> CHR '' '') (struct_acronym (node_structure child))"

section \<open>get\_descendants\_of\_depth\<close>

text \<open>
  The inner function \<^verbatim>\<open>recurse\<close>, given the children of the current node. The
  source looks each child up again by its identifier; identifiers are unique in a treelib
  tree, so that lookup returns the child itself and the recursion runs on it.
\<close>

fun recurse :: "int \<Rightarrow> int \<Rightarrow> atlas list \<Rightarrow> string list" where
  "recurse selected_depth current_depth [] = []"
| "recurse selected_depth current_depth (Region s cs # rest) =
     (if current_depth = selected_depth
      then [tag_first_word (Region s cs)]
      else recurse selected_depth (current_depth + 1) cs)
     @ recurse selected_depth current_depth rest"

definition get_descendants_of_depth :: "atlas \<Rightarrow> nat \<Rightarrow> int \<Rightarrow> error + string list" where
  "get_descendants_of_depth tree parent_node_id selected_depth =
     (case tree_children tree parent_node_id of
        Inl e \<Rightarrow> Inl e
      | Inr children \<Rightarrow> Inr (recurse selected_depth 1 children))"

section \<open>Region merging\<close>

text \<open>The loop over \<^verbatim>\<open>areas_to_merge\<close>, shared by both flattening functions.\<close>

fun merge_areas :: "atlas \<Rightarrow> nat \<Rightarrow> string list \<Rightarrow> mask \<Rightarrow> error + mask" where
  "merge_areas a target [] m = Inr m"
| "merge_areas a target (area_code # rest) m =
     (case structures_getitem a area_code of
        Inl e \<Rightarrow> Inl e
      | Inr s \<Rightarrow> merge_areas a target rest (assign_where (struct_id s) target m))"

fun flatten_regions_loop :: "atlas \<Rightarrow> string list \<Rightarrow> mask \<Rightarrow> error + mask" where
  "flatten_regions_loop a [] m = Inr m"
| "flatten_regions_loop a (region_name # rest) m =
     (case structures_getitem a region_name of
        Inl e \<Rightarrow> Inl e
      | Inr s \<Rightarrow>
         (case get_structure_descendants a region_name of
            Inl e \<Rightarrow> Inl e
          | Inr areas_to_merge \<Rightarrow>
             (case merge_areas a (struct_id s) areas_to_merge m of
                Inl e \<Rightarrow> Inl e
              | Inr m' \<Rightarrow> flatten_regions_loop a rest m')))"

definition flatten_regions :: "mask \<Rightarrow> atlas \<Rightarrow> string list \<Rightarrow> error + mask" where
  "flatten_regions m a region_acronyms = flatten_regions_loop a region_acronyms m"

text \<open>The loop over \<^verbatim>\<open>areas_to_keep\<close>.\<close>

fun keep_areas :: "atlas \<Rightarrow> string list \<Rightarrow> mask \<Rightarrow> error + mask" where
  "keep_areas a [] m = Inr m"
| "keep_areas a (kept_area_code # rest) m =
     (case structures_getitem a kept_area_code of
        Inl e \<Rightarrow> Inl e
      | Inr k \<Rightarrow>
         (case get_structure_descendants a kept_area_code of
            Inl e \<Rightarrow> Inl e
          | Inr areas_to_merge \<Rightarrow>
             (case merge_areas a (struct_id k) areas_to_merge m of
                Inl e \<Rightarrow> Inl e
              | Inr m' \<Rightarrow> keep_areas a rest m')))"

fun flatten_level_loop :: "atlas \<Rightarrow> int \<Rightarrow> string list \<Rightarrow> mask \<Rightarrow> error + mask" where
  "flatten_level_loop a level [] m = Inr m"
| "flatten_level_loop a level (region_name # rest) m =
     (case structures_getitem a region_name of
        Inl e \<Rightarrow> Inl e
      | Inr s \<Rightarrow>
         (case get_descendants_of_depth a (struct_id s) level of
            Inl e \<Rightarrow> Inl e
          | Inr areas_to_keep \<Rightarrow>
             (case keep_areas a areas_to_keep m of
                Inl e \<Rightarrow> Inl e
              | Inr m' \<Rightarrow> flatten_level_loop a level rest m')))"

definition flatten_descendants_of_level :: "mask \<Rightarrow> atlas \<Rightarrow> string list \<Rightarrow> int \<Rightarrow> error + mask" where
  "flatten_descendants_of_level m a region_acronyms level =
     (if level < 1 then Inl ValueError
      else flatten_level_loop a level region_acronyms m)"

fun exclude_loop :: "atlas \<Rightarrow> string list \<Rightarrow> mask \<Rightarrow> error + mask" where
  "exclude_loop a [] m = Inr m"
| "exclude_loop a (region_name # rest) m =
     (case structures_getitem a region_name of
        Inl e \<Rightarrow> Inl e
      | Inr s \<Rightarrow> exclude_loop a rest (assign_where (struct_id s) 0 m))"

definition exclude_regions :: "mask \<Rightarrow> atlas \<Rightarrow> string list \<Rightarrow> error + mask" where
  "exclude_regions m a region_acronyms = exclude_loop a region_acronyms m"

section \<open>Fragment filtering\<close>

text \<open>
  \<^verbatim>\<open>{s["id"]: s["name"] for s in atlas.structures.values()}\<close>: a later structure
  with the same id replaces an earlier one.
\<close>

definition id_to_name :: "atlas \<Rightarrow> nat \<Rightarrow> string option" where
  "id_to_name a = map_of (rev (map (\<lambda>s. (struct_id s, struct_name s)) (structures_values a)))"

text \<open>
  The loop over \<^verbatim>\<open>enumerate(component_sizes, start=1)\<close>, on the pair of
  \<^verbatim>\<open>cleaned_mask\<close> and \<^verbatim>\<open>fragment_info\<close>.
\<close>

fun components_loop ::
  "nat \<Rightarrow> string \<Rightarrow> nat \<Rightarrow> nat list \<Rightarrow> (nat \<times> nat) list \<Rightarrow> mask \<times> fragment list
     \<Rightarrow> mask \<times> fragment list" where
  "components_loop rid rname min_size labeled [] st = st"
| "components_loop rid rname min_size labeled ((i, sz) # rest) (cleaned_mask, fragment_info) =
     (if sz < min_size
      then components_loop rid rname min_size labeled rest
             (assign_where_labeled labeled i 0 cleaned_mask,
              fragment_info @ [(rid, rname, i, sz, True)])
      else components_loop rid rname min_size labeled rest
             (cleaned_mask, fragment_info @ [(rid, rname, i, sz, False)]))"

text \<open>
  The loop over \<^verbatim>\<open>region_ids\<close>. \<open>label\<close> stands for \<^verbatim>\<open>scipy.ndimage.label\<close>
  on arrays of the mask's shape: given the connectivity \<^verbatim>\<open>structure\<close> and a boolean
  array it returns the array of component numbers (its first result).
\<close>

fun fragments_loop ::
  "('c \<Rightarrow> bool list \<Rightarrow> nat list) \<Rightarrow> 'c \<Rightarrow> mask \<Rightarrow> nat \<Rightarrow> (nat \<Rightarrow> string option) \<Rightarrow> nat list
     \<Rightarrow> mask \<times> fragment list \<Rightarrow> mask \<times> fragment list" where
  "fragments_loop label structure m min_size names [] st = st"
| "fragments_loop label structure m min_size names (rid # rest) st =
     (let region_mask = map (\<lambda>v. v = rid) m;
          rname = (case names rid of Some n \<Rightarrow> n | None \<Rightarrow> ''Unknown ID '' @ str_nat rid);
          labeled = label structure region_mask;
          component_sizes = drop 1 (bincount labeled)
      in fragments_loop label structure m min_size names rest
           (components_loop rid rname min_size labeled (enumerate_from 1 component_sizes) st))"

definition remove_small_fragments ::
  "('c \<Rightarrow> bool list \<Rightarrow> nat list) \<Rightarrow> mask \<Rightarrow> nat \<Rightarrow> 'c \<Rightarrow> atlas \<Rightarrow> mask \<times> fragment list" where
  "remove_small_fragments label m min_size structure a =
     (let region_ids = filter (\<lambda>i. i \<noteq> 0) (np_unique m)
      in fragments_loop label structure m min_size (id_to_name a) region_ids (m, []))"

section \<open>Remapping of large identifiers\<close>

text \<open>
  The loop over \<^verbatim>\<open>large_ids\<close>. The two dictionaries are association lists in
  insertion order; \<open>AList.update\<close> replaces the value of a key already present and
  appends a new key, as a Python dictionary does.
\<close>

fun remap_loop ::
  "nat list \<Rightarrow> nat list \<Rightarrow> mask \<times> (nat \<times> nat) list \<times> (nat \<times> nat) list
     \<Rightarrow> error + mask \<times> (nat \<times> nat) list \<times> (nat \<times> nat) list" where
  "remap_loop [] available_ids st = Inr st"
| "remap_loop (old_id # rest) available_ids (m, id_remap, new_id_to_old_id) =
     (case available_ids of
        [] \<Rightarrow> Inl RuntimeError
      | new_id # available_rest \<Rightarrow>
          remap_loop rest available_rest
            (assign_where old_id new_id m,
             AList.update old_id new_id id_remap,
             AList.update new_id old_id new_id_to_old_id))"

definition remap_large_values ::
  "mask \<Rightarrow> nat \<Rightarrow> error + mask \<times> (nat \<times> nat) list \<times> (nat \<times> nat) list" where
  "remap_large_values m max_value =
     (let all_ids = np_unique m;
          large_ids = filter (\<lambda>i. i > max_value) all_ids;
          used_ids = set (filter (\<lambda>i. i \<le> max_value) all_ids);
          available_ids = filter (\<lambda>i. i \<notin> used_ids) [1..<max_value + 1]
      in remap_loop large_ids available_ids (m, [], []))"

section \<open>The label table\<close>

definition atlas_id_to_info :: "atlas \<Rightarrow> nat \<Rightarrow> (string \<times> string) option" where
  "atlas_id_to_info a =
     map_of (rev (map (\<lambda>s. (struct_id s, (struct_name s, struct_acronym s))) (structures_values a)))"

text \<open>The name and acronym chosen for one identifier of the final mask.\<close>

definition label_info ::
  "(nat \<Rightarrow> (string \<times> string) option) \<Rightarrow> (nat \<times> nat) list \<Rightarrow> nat \<Rightarrow> string \<times> string" where
  "label_info info new_id_to_old_id rid =
     (case info rid of
        Some i \<Rightarrow> i
      | None \<Rightarrow>
         (case map_of new_id_to_old_id rid of
            Some old_id \<Rightarrow>
              (case info old_id of
                 Some i \<Rightarrow> i
               | None \<Rightarrow> (''Remapped_'' @ str_nat old_id, ''Remapped_'' @ str_nat old_id))
          | None \<Rightarrow> (''Unknown_'' @ str_nat rid, ''Unknown_'' @ str_nat rid)))"

fun label_loop ::
  "(nat \<Rightarrow> (string \<times> string) option) \<Rightarrow> (nat \<times> nat) list \<Rightarrow> nat list \<Rightarrow> label_row list
     \<Rightarrow> label_row list" where
  "label_loop info new_id_to_old_id [] id_to_label = id_to_label"
| "label_loop info new_id_to_old_id (rid # rest) id_to_label =
     (if rid = 0 then label_loop info new_id_to_old_id rest id_to_label
      else label_loop info new_id_to_old_id rest
             (id_to_label @
              [\<lparr>row_region_id = rid,
                row_region_name = fst (label_info info new_id_to_old_id rid),
                row_region_acronym = snd (label_info info new_id_to_old_id rid)\<rparr>]))"

definition create_label_mapping :: "mask \<Rightarrow> atlas \<Rightarrow> (nat \<times> nat) list \<Rightarrow> label_row list" where
  "create_label_mapping m a new_id_to_old_id =
     label_loop (atlas_id_to_info a) new_id_to_old_id (np_unique m) []"

section \<open>The same functions on a store of arrays\<close>

text \<open>
  The definitions above give the value each function returns. Which array object holds
  that value is a separate matter: \<^verbatim>\<open>mask.copy()\<close> makes a new array, an indexed
  assignment writes into an existing one. Here arrays live in a store, the address of an
  array being its position; every function takes the store and the address of its
  \<^verbatim>\<open>mask\<close> argument and returns the store it leaves behind, together with the
  exception raised or the address of the array returned.
\<close>

type_synonym store = "mask list"

text \<open>\<^verbatim>\<open>mask.copy()\<close>: a new array at the next free address.\<close>

definition np_copy :: "store \<Rightarrow> nat \<Rightarrow> nat \<times> store" where
  "np_copy st p = (length st, st @ [st ! p])"

text \<open>\<^verbatim>\<open>arr[arr == old] = new\<close> on the array at address \<open>q\<close>.\<close>

definition store_assign_where :: "nat \<Rightarrow> nat \<Rightarrow> nat \<Rightarrow> store \<Rightarrow> store" where
  "store_assign_where q old new st = st[q := assign_where old new (st ! q)]"

fun merge_areas_st :: "atlas \<Rightarrow> nat \<Rightarrow> nat \<Rightarrow> string list \<Rightarrow> store \<Rightarrow> error option \<times> store" where
  "merge_areas_st a q target [] st = (None, st)"
| "merge_areas_st a q target (area_code # rest) st =
     (case structures_getitem a area_code of
        Inl e \<Rightarrow> (Some e, st)
      | Inr s \<Rightarrow> merge_areas_st a q target rest (store_assign_where q (struct_id s) target st))"

fun flatten_regions_loop_st :: "atlas \<Rightarrow> nat \<Rightarrow> string list \<Rightarrow> store \<Rightarrow> error option \<times> store" where
  "flatten_regions_loop_st a q [] st = (None, st)"
| "flatten_regions_loop_st a q (region_name # rest) st =
     (case structures_getitem a region_name of
        Inl e \<Rightarrow> (Some e, st)
      | Inr s \<Rightarrow>
         (case get_structure_descendants a region_name of
            Inl e \<Rightarrow> (Some e, st)
          | Inr areas_to_merge \<Rightarrow>
             (case merge_areas_st a q (struct_id s) areas_to_merge st of
                (Some e, st') \<Rightarrow> (Some e, st')
              | (None, st') \<Rightarrow> flatten_regions_loop_st a q rest st')))"

definition flatten_regions_st :: "store \<Rightarrow> nat \<Rightarrow> atlas \<Rightarrow> string list \<Rightarrow> (error + nat) \<times> store" where
  "flatten_regions_st st p a region_acronyms =
     (case np_copy st p of
        (simplified_mask, st1) \<Rightarrow>
          (case flatten_regions_loop_st a simplified_mask region_acronyms st1 of
             (Some e, st2) \<Rightarrow> (Inl e, st2)
           | (None, st2) \<Rightarrow> (Inr simplified_mask, st2)))"

fun keep_areas_st :: "atlas \<Rightarrow> nat \<Rightarrow> string list \<Rightarrow> store \<Rightarrow> error option \<times> store" where
  "keep_areas_st a q [] st = (None, st)"
| "keep_areas_st a q (kept_area_code # rest) st =
     (case structures_getitem a kept_area_code of
        Inl e \<Rightarrow> (Some e, st)
      | Inr k \<Rightarrow>
         (case get_structure_descendants a kept_area_code of
            Inl e \<Rightarrow> (Some e, st)
          | Inr areas_to_merge \<Rightarrow>
             (case merge_areas_st a q (struct_id k) areas_to_merge st of
                (Some e, st') \<Rightarrow> (Some e, st')
              | (None, st') \<Rightarrow> keep_areas_st a q rest st')))"

fun flatten_level_loop_st ::
  "atlas \<Rightarrow> nat \<Rightarrow> int \<Rightarrow> string list \<Rightarrow> store \<Rightarrow> error option \<times> store" where
  "flatten_level_loop_st a q level [] st = (None, st)"
| "flatten_level_loop_st a q level (region_name # rest) st =
     (case structures_getitem a region_name of
        Inl e \<Rightarrow> (Some e, st)
      | Inr s \<Rightarrow>
         (case get_descendants_of_depth a (struct_id s) level of
            Inl e \<Rightarrow> (Some e, st)
          | Inr areas_to_keep \<Rightarrow>
             (case keep_areas_st a q areas_to_keep st of
                (Some e, st') \<Rightarrow> (Some e, st')
              | (None, st') \<Rightarrow> flatten_level_loop_st a q level rest st')))"

definition flatten_descendants_of_level_st ::
  "store \<Rightarrow> nat \<Rightarrow> atlas \<Rightarrow> string list \<Rightarrow> int \<Rightarrow> (error + nat) \<times> store" where
  "flatten_descendants_of_level_st st p a region_acronyms level =
     (if level < 1 then (Inl ValueError, st)
      else
        (case np_copy st p of
           (simplified_mask, st1) \<Rightarrow>
             (case flatten_level_loop_st a simplified_mask level region_acronyms st1 of
                (Some e, st2) \<Rightarrow> (Inl e, st2)
              | (None, st2) \<Rightarrow> (Inr simplified_mask, st2))))"

fun exclude_loop_st :: "atlas \<Rightarrow> nat \<Rightarrow> string list \<Rightarrow> store \<Rightarrow> error option \<times> store" where
  "exclude_loop_st a q [] st = (None, st)"
| "exclude_loop_st a q (region_name # rest) st =
     (case structures_getitem a region_name of
        Inl e \<Rightarrow> (Some e, st)
      | Inr s \<Rightarrow> exclude_loop_st a q rest (store_assign_where q (struct_id s) 0 st))"

definition exclude_regions_st :: "store \<Rightarrow> nat \<Rightarrow> atlas \<Rightarrow> string list \<Rightarrow> (error + nat) \<times> store" where
  "exclude_regions_st st p a region_acronyms =
     (case np_copy st p of
        (modified_mask, st1) \<Rightarrow>
          (case exclude_loop_st a modified_mask region_acronyms st1 of
             (Some e, st2) \<Rightarrow> (Inl e, st2)
           | (None, st2) \<Rightarrow> (Inr modified_mask, st2)))"

text \<open>
  In \<^verbatim>\<open>remove_small_fragments\<close> the list \<^verbatim>\<open>fragment_info\<close> is local; the
  arrays \<^verbatim>\<open>mask\<close> (read, at \<open>p\<close>) and \<^verbatim>\<open>cleaned_mask\<close> (written, at \<open>q\<close>)
  are in the store.
\<close>

fun components_loop_st ::
  "nat \<Rightarrow> nat \<Rightarrow> string \<Rightarrow> nat \<Rightarrow> nat list \<Rightarrow> (nat \<times> nat) list \<Rightarrow> store \<times> fragment list
     \<Rightarrow> store \<times> fragment list" where
  "components_loop_st q rid rname min_size labeled [] sf = sf"
| "components_loop_st q rid rname min_size labeled ((i, sz) # rest) (st, fragment_info) =
     (if sz < min_size
      then components_loop_st q rid rname min_size labeled rest
             (st[q := assign_where_labeled labeled i 0 (st ! q)],
              fragment_info @ [(rid, rname, i, sz, True)])
      else components_loop_st q rid rname min_size labeled rest
             (st, fragment_info @ [(rid, rname, i, sz, False)]))"

fun fragments_loop_st ::
  "('c \<Rightarrow> bool list \<Rightarrow> nat list) \<Rightarrow> 'c \<Rightarrow> nat \<Rightarrow> nat \<Rightarrow> nat \<Rightarrow> (nat \<Rightarrow> string option) \<Rightarrow> nat list
     \<Rightarrow> store \<times> fragment list \<Rightarrow> store \<times> fragment list" where
  "fragments_loop_st label structure p q min_size names [] sf = sf"
| "fragments_loop_st label structure p q min_size names (rid # rest) (st, fragment_info) =
     (let region_mask = map (\<lambda>v. v = rid) (st ! p);
          rname = (case names rid of Some n \<Rightarrow> n | None \<Rightarrow> ''Unknown ID '' @ str_nat rid);
          labeled = label structure region_mask;
          component_sizes = drop 1 (bincount labeled)
      in fragments_loop_st label structure p q min_size names rest
           (components_loop_st q rid rname min_size labeled
              (enumerate_from 1 component_sizes) (st, fragment_info)))"

definition remove_small_fragments_st ::
  "('c \<Rightarrow> bool list \<Rightarrow> nat list) \<Rightarrow> store \<Rightarrow> nat \<Rightarrow> nat \<Rightarrow> 'c \<Rightarrow> atlas
     \<Rightarrow> (nat \<times> fragment list) \<times> store" where
  "remove_small_fragments_st label st p min_size structure a =
     (case np_copy st p of
        (cleaned_mask, st1) \<Rightarrow>
          (let region_ids = filter (\<lambda>i. i \<noteq> 0) (np_unique (st1 ! p))
           in case fragments_loop_st label structure p cleaned_mask min_size (id_to_name a)
                     region_ids (st1, []) of
                (st2, fragment_info) \<Rightarrow> ((cleaned_mask, fragment_info), st2)))"

text \<open>\<^verbatim>\<open>remap_large_values\<close> makes no copy: its loop writes into the array at \<open>p\<close>.\<close>

fun remap_loop_st ::
  "nat \<Rightarrow> nat list \<Rightarrow> nat list \<Rightarrow> store \<times> (nat \<times> nat) list \<times> (nat \<times> nat) list
     \<Rightarrow> (error + (nat \<times> nat) list \<times> (nat \<times> nat) list) \<times> store" where
  "remap_loop_st p [] available_ids (st, id_remap, new_id_to_old_id) =
     (Inr (id_remap, new_id_to_old_id), st)"
| "remap_loop_st p (old_id # rest) available_ids (st, id_remap, new_id_to_old_id) =
     (case available_ids of
        [] \<Rightarrow> (Inl RuntimeError, st)
      | new_id # available_rest \<Rightarrow>
          remap_loop_st p rest available_rest
            (store_assign_where p old_id new_id st,
             AList.update old_id new_id id_remap,
             AList.update new_id old_id new_id_to_old_id))"

definition remap_large_values_st ::
  "store \<Rightarrow> nat \<Rightarrow> nat \<Rightarrow> (error + nat \<times> (nat \<times> nat) list \<times> (nat \<times> nat) list) \<times> store" where
  "remap_large_values_st st p max_value =
     (let all_ids = np_unique (st ! p);
          large_ids = filter (\<lambda>i. i > max_value) all_ids;
          used_ids = set (filter (\<lambda>i. i \<le> max_value) all_ids);
          available_ids = filter (\<lambda>i. i \<notin> used_ids) [1..<max_value + 1]
      in case remap_loop_st p large_ids available_ids (st, [], []) of
           (Inl e, st') \<Rightarrow> (Inl e, st')
         | (Inr (id_remap, new_id_to_old_id), st') \<Rightarrow> (Inr (p, id_remap, new_id_to_old_id), st'))"

section \<open>Example inputs\<close>

text \<open>A hierarchy of three regions: a root with one child, which has one child.\<close>

definition example_atlas :: atlas where
  "example_atlas =
     Region \<lparr>struct_id = 10, struct_name = ''root region'', struct_acronym = ''root''\<rparr>
       [Region \<lparr>struct_id = 11, struct_name = ''grey matter'', struct_acronym = ''grey''\<rparr>
          [Region \<lparr>struct_id = 12, struct_name = ''cortex'', struct_acronym = ''CTX''\<rparr> []]]"

text \<open>
  Labelling of a volume that is one voxel wide and one voxel high, with face adjacency:
  a component is a maximal run of \<open>True\<close> along the remaining axis, and the runs are
  numbered from 1 in scan order, as \<^verbatim>\<open>scipy.ndimage.label\<close> numbers them. The state
  is the last number given and whether the previous voxel was set.
\<close>

fun label_runs_from :: "nat \<Rightarrow> bool \<Rightarrow> bool list \<Rightarrow> nat list" where
  "label_runs_from n prev [] = []"
| "label_runs_from n prev (b # bs) =
     (if b then (if prev then n # label_runs_from n True bs
                 else Suc n # label_runs_from (Suc n) True bs)
      else 0 # label_runs_from n False bs)"

definition label_runs :: "unit \<Rightarrow> bool list \<Rightarrow> nat list" where
  "label_runs structure region_mask = label_runs_from 0 False region_mask"

text \<open>
  A hierarchy in which a small identifier (1) and one above the 16-bit style bound used in
  the examples (150) both occur.
\<close>

definition example_atlas_remap :: atlas where
  "example_atlas_remap =
     Region \<lparr>struct_id = 8, struct_name = ''Basic cell groups'', struct_acronym = ''grey''\<rparr>
       [Region \<lparr>struct_id = 1, struct_name = ''Tuberomammillary nucleus'',
                struct_acronym = ''TMv''\<rparr> [],
        Region \<lparr>struct_id = 150, struct_name = ''Large region'', struct_acronym = ''LR''\<rparr> []]"

text \<open>
  Two hierarchies with unique ids. In the first, the region with id 21 has the acronym
  \<open>30\<close>, and 30 is the id of another region. In the second, two regions share the
  acronym \<open>Y\<close>.
\<close>

definition example_atlas_numeral :: atlas where
  "example_atlas_numeral =
     Region \<lparr>struct_id = 1, struct_name = ''root'', struct_acronym = ''root''\<rparr>
       [Region \<lparr>struct_id = 20, struct_name = ''region X'', struct_acronym = ''X''\<rparr>
          [Region \<lparr>struct_id = 21, struct_name = ''layer 30'', struct_acronym = ''30''\<rparr> []],
        Region \<lparr>struct_id = 30, struct_name = ''region Y'', struct_acronym = ''Y''\<rparr>
          [Region \<lparr>struct_id = 31, struct_name = ''region c'', struct_acronym = ''c''\<rparr> []]]"

definition example_atlas_shared_acronym :: atlas where
  "example_atlas_shared_acronym =
     Region \<lparr>struct_id = 1, struct_name = ''root'', struct_acronym = ''root''\<rparr>
       [Region \<lparr>struct_id = 2, struct_name = ''first Y'', struct_acronym = ''Y''\<rparr>
          [Region \<lparr>struct_id = 4, struct_name = ''region z'', struct_acronym = ''z''\<rparr> []],
        Region \<lparr>struct_id = 5, struct_name = ''region X'', struct_acronym = ''X''\<rparr>
          [Region \<lparr>struct_id = 7, struct_name = ''second Y'', struct_acronym = ''Y''\<rparr> []]]"

section \<open>Notions used in the statements\<close>

text \<open>
  An atlas in which no two regions of the hierarchy share an id, and no two share an
  acronym. (The library itself asks this of the ids only.)
\<close>

definition atlas_consistent :: "atlas \<Rightarrow> bool" where
  "atlas_consistent a =
     (distinct (map struct_id (structures_values a))
      \<and> distinct (map struct_acronym (structures_values a)))"

text \<open>No acronym of the atlas reads as an integer.\<close>

definition no_integer_acronym :: "atlas \<Rightarrow> bool" where
  "no_integer_acronym a = list_all (\<lambda>s. py_int (struct_acronym s) = None) (structures_values a)"

text \<open>
  What flattening the listed regions, in order, does to one voxel value: a value that is
  the id of a region below the named one becomes the id of the named region. (A name
  that names no region is passed over here; the loop itself raises at it.)
\<close>

fun flatten_value :: "atlas \<Rightarrow> string list \<Rightarrow> nat \<Rightarrow> nat" where
  "flatten_value a [] v = v"
| "flatten_value a (region_name # rest) v =
     (case structures_node a region_name of
        Inl e \<Rightarrow> flatten_value a rest v
      | Inr n \<Rightarrow>
          flatten_value a rest
            (if v \<in> (\<lambda>d. struct_id (node_structure d)) ` set (tl (subtrees n))
             then struct_id (node_structure n) else v))"

text \<open>
  Shorthands for the statements about \<open>remove_small_fragments\<close>: the array of component
  numbers computed for one region id, and the name recorded for it.
\<close>

abbreviation region_labels ::
  "('c \<Rightarrow> bool list \<Rightarrow> nat list) \<Rightarrow> 'c \<Rightarrow> mask \<Rightarrow> nat \<Rightarrow> nat list" where
  "region_labels label structure m rid \<equiv> label structure (map (\<lambda>v. v = rid) m)"

abbreviation fragment_name :: "(nat \<Rightarrow> string option) \<Rightarrow> nat \<Rightarrow> string" where
  "fragment_name names rid \<equiv>
     (case names rid of Some n \<Rightarrow> n | None \<Rightarrow> ''Unknown ID '' @ str_nat rid)"

text \<open>
  How a loop on the store is compared with the loop on values: started on the store \<open>st\<close>
  it has written to the array at \<open>q\<close> only, it raises what the loop on values raises,
  and if that loop returns a mask, this mask is what the array at \<open>q\<close> now holds.
\<close>

definition loop_agrees :: "nat \<Rightarrow> store \<Rightarrow> error option \<times> store \<Rightarrow> error + mask \<Rightarrow> bool" where
  "loop_agrees q st on_store on_values =
     (\<exists>m'. snd on_store = st[q := m']
         \<and> (case on_values of
               Inl e \<Rightarrow> fst on_store = Some e
             | Inr m1 \<Rightarrow> fst on_store = None \<and> m' = m1))"

section \<open>Basic facts about the primitives\<close>

lemma np_unique_distinct: "distinct (np_unique xs)"
  by (simp add: np_unique_def)

lemma np_unique_set: "set (np_unique xs) = set xs"
  by (simp add: np_unique_def)

lemma np_unique_sorted: "sorted (np_unique xs)"
  by (simp add: np_unique_def)

section \<open>The label table has one row per identifier\<close>

lemma label_loop_ids:
  "map row_region_id (label_loop info n2o ids acc)
     = map row_region_id acc @ filter (\<lambda>i. i \<noteq> 0) ids"
  by (induction ids arbitrary: acc) auto

lemma count_rows_distinct:
  "distinct (map f rows) \<Longrightarrow>
     length (filter (\<lambda>r. f r = v) rows) = (if v \<in> f ` set rows then 1 else 0)"
  by (induction rows) auto

text \<open>
  Claim C9. The table returned by \<open>create_label_mapping\<close> has exactly one row for every
  nonzero identifier that occurs in the mask, and no row for 0 or for an identifier that
  does not occur: the number of rows carrying an identifier \<open>v\<close> is 1 in the first case
  and 0 otherwise.
\<close>

theorem create_label_mapping_one_row_per_id:
  "length (filter (\<lambda>r. row_region_id r = v) (create_label_mapping m a new_id_to_old_id))
     = (if v \<in> set m \<and> v \<noteq> 0 then 1 else 0)"
proof -
  let ?rows = "create_label_mapping m a new_id_to_old_id"
  have ids: "map row_region_id ?rows = filter (\<lambda>i. i \<noteq> 0) (np_unique m)"
    by (simp add: create_label_mapping_def label_loop_ids)
  have "distinct (map row_region_id ?rows)"
    by (simp add: ids np_unique_distinct)
  then have "length (filter (\<lambda>r. row_region_id r = v) ?rows)
               = (if v \<in> row_region_id ` set ?rows then 1 else 0)"
    by (rule count_rows_distinct)
  moreover have "row_region_id ` set ?rows = {i \<in> set m. i \<noteq> 0}"
    using ids np_unique_set [of m] by (metis set_filter set_map)
  ultimately show ?thesis by simp
qed

section \<open>Depths below 1\<close>

text \<open>Once the current depth is past the selected one, nothing is collected.\<close>

lemma recurse_below: "sel < d \<Longrightarrow> recurse sel d cs = []"
  by (induction sel d cs rule: recurse.induct) auto

text \<open>
  Claim C2, as stated, at a concrete input: asked for depth 0 below the root of the
  example hierarchy, \<open>get_descendants_of_depth\<close> raises nothing and returns the empty
  list.
\<close>

theorem get_descendants_of_depth_zero_returns:
  "get_descendants_of_depth example_atlas 10 0 = Inr []"
  by (simp add: get_descendants_of_depth_def tree_children_def example_atlas_def)

text \<open>
  Claim C2, amended. With a level below 1, \<open>flatten_descendants_of_level\<close> raises
  \<open>ValueError\<close> before it copies or writes any array: the store is the one it was given.
  The depth check is in that function only: \<open>get_descendants_of_depth\<close> with a depth
  below 1 returns the empty list whenever the node is in the tree, and fails only with the
  error of the child lookup.
\<close>

theorem depth_below_one:
  "level < 1 \<Longrightarrow>
     flatten_descendants_of_level_st st p a region_acronyms level = (Inl ValueError, st)
   \<and> flatten_descendants_of_level m a region_acronyms level = Inl ValueError
   \<and> get_descendants_of_depth a nid level
       = (case tree_children a nid of Inl e \<Rightarrow> Inl e | Inr children \<Rightarrow> Inr [])"
  by (simp add: flatten_descendants_of_level_st_def flatten_descendants_of_level_def
      get_descendants_of_depth_def recurse_below split: sum.splits)

theorem depth_below_one_witness:
  "(0::int) < 1
   \<and> flatten_descendants_of_level_st [[10, 11, 12]] 0 example_atlas [''root''] 0
       = (Inl ValueError, [[10, 11, 12]])
   \<and> flatten_descendants_of_level [10, 11, 12] example_atlas [''root''] 0 = Inl ValueError
   \<and> get_descendants_of_depth example_atlas 10 0 = Inr []"
  using depth_below_one [of 0 "[[10, 11, 12]]" 0 example_atlas "[''root'']" "[10, 11, 12]" 10]
  by (simp add: tree_children_def example_atlas_def)

section \<open>When remapping runs out of identifiers\<close>

lemma remap_loop_fails_iff:
  "(\<exists>e. remap_loop ls av st = Inl e) = (length av < length ls)"
proof (induction ls arbitrary: av st)
  case Nil
  then show ?case by simp
next
  case (Cons old_id rest)
  obtain m r n where st: "st = (m, r, n)" by (cases st) auto
  show ?case
  proof (cases av)
    case Nil
    then show ?thesis by (simp add: st)
  next
    case (Cons new_id av')
    then show ?thesis using Cons.IH by (simp add: st)
  qed
qed

lemma remap_loop_error: "remap_loop ls av st = Inl e \<Longrightarrow> e = RuntimeError"
proof (induction ls arbitrary: av st)
  case Nil
  then show ?case by simp
next
  case (Cons old_id rest)
  obtain m r n where st: "st = (m, r, n)" by (cases st) auto
  from Cons show ?case by (auto simp: st split: list.splits)
qed

lemma large_ids_length:
  "length (filter (\<lambda>i. V < i) (np_unique m)) = card {v \<in> set m. V < v}"
proof -
  have "distinct (filter (\<lambda>i. V < i) (np_unique m))"
    by (simp add: np_unique_distinct)
  then have "card (set (filter (\<lambda>i. V < i) (np_unique m)))
              = length (filter (\<lambda>i. V < i) (np_unique m))"
    by (rule distinct_card)
  moreover have "set (filter (\<lambda>i. V < i) (np_unique m)) = {v \<in> set m. V < v}"
    by (auto simp: np_unique_set)
  ultimately show ?thesis by simp
qed

lemma available_ids_set:
  "set (filter (\<lambda>i. i \<notin> set (filter (\<lambda>i. i \<le> V) (np_unique m))) [1..<V + 1])
     = {i \<in> {1..V}. i \<notin> set m}"
  by (auto simp: np_unique_set)

lemma available_ids_length:
  "length (filter (\<lambda>i. i \<notin> set (filter (\<lambda>i. i \<le> V) (np_unique m))) [1..<V + 1])
     = card {i \<in> {1..V}. i \<notin> set m}"
proof -
  let ?av = "filter (\<lambda>i. i \<notin> set (filter (\<lambda>i. i \<le> V) (np_unique m))) [1..<V + 1]"
  have "distinct ?av" by simp
  then have "card (set ?av) = length ?av" by (rule distinct_card)
  then show ?thesis by (simp only: available_ids_set)
qed

lemma remap_fails_iff:
  "(\<exists>e. remap_large_values m V = Inl e)
     = (card {i \<in> {1..V}. i \<notin> set m} < card {v \<in> set m. V < v})"
  unfolding remap_large_values_def Let_def remap_loop_fails_iff
  by (simp only: large_ids_length available_ids_length)

text \<open>
  Claim C3. \<open>remap_large_values\<close> raises an exception exactly when the mask has more
  distinct identifiers above \<open>max_value\<close> than there are integers in \<open>1 .. max_value\<close>
  that do not occur in the mask; the exception is then the \<open>RuntimeError\<close> of the loop.
  In particular it fails for \<open>max_value = 2\<close> on every mask whose nonzero identifiers are
  1, 2 and 500.
\<close>

theorem remap_large_values_exhausted_iff:
  "((\<exists>e. remap_large_values m V = Inl e)
      = (card {i \<in> {1..V}. i \<notin> set m} < card {v \<in> set m. V < v}))
   \<and> (remap_large_values m V = Inl e \<longrightarrow> e = RuntimeError)
   \<and> (set m - {0} = {1, 2, 500} \<longrightarrow> remap_large_values m 2 = Inl RuntimeError)"
proof (intro conjI impI)
  show "(\<exists>e. remap_large_values m V = Inl e)
      = (card {i \<in> {1..V}. i \<notin> set m} < card {v \<in> set m. V < v})"
    by (rule remap_fails_iff)
  show "e = RuntimeError" if "remap_large_values m V = Inl e"
    using that unfolding remap_large_values_def Let_def by (rule remap_loop_error)
  show "remap_large_values m 2 = Inl RuntimeError" if ids: "set m - {0} = {1, 2, 500}"
  proof -
    have pt: "(v \<in> set m \<and> v \<noteq> 0) = (v = 1 \<or> v = 2 \<or> v = 500)" for v
    proof -
      have "(v \<in> set m - {0}) = (v \<in> {1, 2, 500})" by (simp only: ids)
      then show ?thesis by simp
    qed
    have in1: "1 \<in> set m" using pt [of 1] by simp
    have in2: "2 \<in> set m" using pt [of 2] by simp
    have "i \<in> set m" if "i \<in> {1..2::nat}" for i
    proof -
      from that have "i = 1 \<or> i = 2" by auto
      with in1 in2 show ?thesis by auto
    qed
    then have avail: "{i \<in> {1..2::nat}. i \<notin> set m} = {}" by blast
    have "(v \<in> set m \<and> 2 < v) = (v = 500)" for v
      using pt [of v] by auto
    then have large: "{v \<in> set m. 2 < v} = {500}" by blast
    have "\<exists>e. remap_large_values m 2 = Inl e"
      unfolding remap_fails_iff avail large by simp
    then obtain e' where e': "remap_large_values m 2 = Inl e'" ..
    then have "e' = RuntimeError"
      unfolding remap_large_values_def Let_def by (rule remap_loop_error)
    with e' show ?thesis by simp
  qed
qed

theorem remap_large_values_exhausted_iff_witness:
  "set [1, 2, 500, 0, 2] - {0} = {1, 2, 500::nat}
   \<and> remap_large_values [1, 2, 500, 0, 2] 2 = Inl RuntimeError
   \<and> card {i \<in> {1..2}. i \<notin> set [1, 2, 500, 0, 2::nat]} < card {v \<in> set [1, 2, 500, 0, 2::nat]. 2 < v}"
proof -
  have s: "set [1, 2, 500, 0, 2] - {0} = {1, 2, 500::nat}" by auto
  from remap_large_values_exhausted_iff [of "[1, 2, 500, 0, 2]" 2 RuntimeError] s
  show ?thesis by blast
qed

section \<open>A remapped identifier that is also an atlas identifier\<close>

text \<open>
  Claim C1 at a concrete input. With bound 100 the mask \<open>[150, 8, 0]\<close> is remapped to
  \<open>[1, 8, 0]\<close>, the reverse table sending 1 to 150. The atlas has a region with id 1
  that does not occur in the mask; \<open>create_label_mapping\<close> looks the new id 1 up in the
  atlas first and labels it with that region, not with region 150, whose name and acronym
  the atlas has.
\<close>

theorem create_label_mapping_collision:
  "remap_large_values [150, 8, 0] 100 = Inr ([1, 8, 0], [(150, 1)], [(1, 150)])
   \<and> create_label_mapping [1, 8, 0] example_atlas_remap [(1, 150)]
       = [\<lparr>row_region_id = 1, row_region_name = ''Tuberomammillary nucleus'',
            row_region_acronym = ''TMv''\<rparr>,
          \<lparr>row_region_id = 8, row_region_name = ''Basic cell groups'',
            row_region_acronym = ''grey''\<rparr>]
   \<and> atlas_id_to_info example_atlas_remap 150 = Some (''Large region'', ''LR'')"
  by code_simp

section \<open>What a successful remapping returns\<close>

lemma update_fresh_key: "k \<notin> fst ` set ps \<Longrightarrow> AList.update k v ps = ps @ [(k, v)]"
  by (induction ps) auto

lemma map_of_zip_notin: "x \<notin> set xs \<Longrightarrow> map_of (zip xs ys) x = None"
proof -
  assume "x \<notin> set xs"
  then have "x \<notin> fst ` set (zip xs ys)" by (auto dest: set_zip_leftD)
  then show ?thesis by (simp add: map_of_eq_None_iff)
qed

lemma remap_loop_result:
  assumes "length ls \<le> length av" and "distinct ls" and "distinct av"
    and "\<forall>x\<in>set ls. V < x" and "\<forall>y\<in>set av. y \<le> V"
    and "fst ` set r \<inter> set ls = {}" and "fst ` set n \<inter> set av = {}"
  shows "remap_loop ls av (m, r, n)
           = Inr (map (\<lambda>v. case map_of (zip ls av) v of Some y \<Rightarrow> y | None \<Rightarrow> v) m,
                  r @ zip ls av, n @ zip av ls)"
  using assms
proof (induction ls arbitrary: av m r n)
  case Nil
  then show ?case by simp
next
  case (Cons old_id rest)
  from Cons.prems(1) obtain new_id av' where av: "av = new_id # av'"
    by (cases av) auto
  have new_small: "new_id \<le> V" using Cons.prems(5) av by simp
  have new_notin: "new_id \<notin> set rest" using Cons.prems(4) new_small by auto
  have old_fresh: "old_id \<notin> fst ` set r" using Cons.prems(6) by auto
  have new_fresh: "new_id \<notin> fst ` set n" using Cons.prems(7) av by auto
  have r': "AList.update old_id new_id r = r @ [(old_id, new_id)]"
    using old_fresh by (rule update_fresh_key)
  have n': "AList.update new_id old_id n = n @ [(new_id, old_id)]"
    using new_fresh by (rule update_fresh_key)
  have IH: "remap_loop rest av' (assign_where old_id new_id m, r @ [(old_id, new_id)], n @ [(new_id, old_id)])
      = Inr (map (\<lambda>v. case map_of (zip rest av') v of Some y \<Rightarrow> y | None \<Rightarrow> v)
               (assign_where old_id new_id m),
             (r @ [(old_id, new_id)]) @ zip rest av', (n @ [(new_id, old_id)]) @ zip av' rest)"
  proof (rule Cons.IH)
    show "length rest \<le> length av'" using Cons.prems(1) av by simp
    show "distinct rest" using Cons.prems(2) by simp
    show "distinct av'" using Cons.prems(3) av by simp
    show "\<forall>x\<in>set rest. V < x" using Cons.prems(4) by simp
    show "\<forall>y\<in>set av'. y \<le> V" using Cons.prems(5) av by simp
    show "fst ` set (r @ [(old_id, new_id)]) \<inter> set rest = {}"
      using Cons.prems(6) Cons.prems(2) by auto
    show "fst ` set (n @ [(new_id, old_id)]) \<inter> set av' = {}"
      using Cons.prems(7) Cons.prems(3) av by auto
  qed
  have mask_eq: "map (\<lambda>v. case map_of (zip rest av') v of Some y \<Rightarrow> y | None \<Rightarrow> v)
               (assign_where old_id new_id m)
       = map (\<lambda>v. case map_of (zip (old_id # rest) (new_id # av')) v of Some y \<Rightarrow> y | None \<Rightarrow> v) m"
    using map_of_zip_notin [OF new_notin, of av']
    by (simp add: assign_where_def)
  show ?case
    by (simp add: av r' n' IH mask_eq)
qed


lemma available_ids_eq:
  "filter (\<lambda>i. i \<notin> set (filter (\<lambda>i. i \<le> V) (np_unique m))) [1..<V + 1]
     = filter (\<lambda>i. i \<notin> set m) [1..<Suc V]"
  by (auto simp: np_unique_set intro: filter_cong)

lemma remap_large_values_closed:
  assumes ok: "remap_large_values m V = Inr (m', id_remap, new_id_to_old_id)"
  defines "large \<equiv> filter (\<lambda>i. V < i) (np_unique m)"
    and "av \<equiv> filter (\<lambda>i. i \<notin> set m) [1..<Suc V]"
  shows "length large \<le> length av"
    and "id_remap = zip large av"
    and "new_id_to_old_id = zip av large"
    and "m' = map (\<lambda>v. case map_of (zip large av) v of Some y \<Rightarrow> y | None \<Rightarrow> v) m"
proof -
  have run: "remap_loop large av (m, [], []) = Inr (m', id_remap, new_id_to_old_id)"
    using ok unfolding remap_large_values_def Let_def available_ids_eq large_def av_def .
  then have "\<not> (\<exists>e. remap_loop large av (m, [], []) = Inl e)" by simp
  then show len: "length large \<le> length av"
    unfolding remap_loop_fails_iff by simp
  have res: "remap_loop large av (m, [], [])
          = Inr (map (\<lambda>v. case map_of (zip large av) v of Some y \<Rightarrow> y | None \<Rightarrow> v) m,
                 [] @ zip large av, [] @ zip av large)"
  proof (rule remap_loop_result [where V = V])
    show "length large \<le> length av" by (rule len)
    show "distinct large" by (simp add: large_def np_unique_distinct)
    show "distinct av" by (simp add: av_def)
    show "\<forall>x\<in>set large. V < x" by (simp add: large_def)
    show "\<forall>y\<in>set av. y \<le> V" by (auto simp: av_def)
  qed simp_all
  from run [symmetric] res
  have "Inr (m', id_remap, new_id_to_old_id)
      = (Inr (map (\<lambda>v. case map_of (zip large av) v of Some y \<Rightarrow> y | None \<Rightarrow> v) m,
         [] @ zip large av, [] @ zip av large) :: error + mask \<times> (nat \<times> nat) list \<times> (nat \<times> nat) list)"
    by (rule trans)
  then have "m' = map (\<lambda>v. case map_of (zip large av) v of Some y \<Rightarrow> y | None \<Rightarrow> v) m
       \<and> id_remap = zip large av \<and> new_id_to_old_id = zip av large"
    by (simp only: sum.inject prod.inject append_Nil)
  then show "id_remap = zip large av" and "new_id_to_old_id = zip av large"
    and "m' = map (\<lambda>v. case map_of (zip large av) v of Some y \<Rightarrow> y | None \<Rightarrow> v) m"
    by blast+
qed

lemma map_of_zip_in:
  "x \<in> set xs \<Longrightarrow> length xs \<le> length ys \<Longrightarrow> \<exists>y\<in>set ys. map_of (zip xs ys) x = Some y"
proof (induction xs arbitrary: ys)
  case Nil
  then show ?case by simp
next
  case (Cons a xs)
  then obtain b ys' where ys: "ys = b # ys'" by (cases ys) auto
  show ?case
  proof (cases "x = a")
    case True
    then show ?thesis by (simp add: ys)
  next
    case False
    with Cons.prems have "x \<in> set xs" "length xs \<le> length ys'" by (simp_all add: ys)
    then have "\<exists>y\<in>set ys'. map_of (zip xs ys') x = Some y" by (rule Cons.IH)
    with False show ?thesis by (auto simp: ys)
  qed
qed

lemma distinct_snd_inj:
  "distinct (map snd ps) \<Longrightarrow> (a, x) \<in> set ps \<Longrightarrow> (b, x) \<in> set ps \<Longrightarrow> a = b"
  by (induction ps) (auto simp: image_iff)

text \<open>
  Claim C4. When \<open>remap_large_values\<close> succeeds with bound \<open>V\<close>: the keys of the
  old-to-new table are the identifiers above \<open>V\<close> in ascending order, and their values
  are the first candidates, in ascending order, of the integers \<open>1 .. V\<close> that do not
  occur in the mask (both columns of the table are sorted); two different identifiers above \<open>V\<close> get different new identifiers;
  no new identifier occurs in the mask, and each lies in \<open>1 .. V\<close>; the reverse table is
  the old-to-new table with its pairs swapped; the returned mask is the input with the
  table applied, and all its values are at most \<open>V\<close>.
\<close>

theorem remap_large_values_success:
  assumes ok: "remap_large_values m V = Inr (m', id_remap, new_id_to_old_id)"
  shows "map fst id_remap = filter (\<lambda>i. V < i) (np_unique m)
       \<and> map snd id_remap = take (length id_remap) (filter (\<lambda>i. i \<notin> set m) [1..<Suc V])
       \<and> sorted (map fst id_remap) \<and> sorted (map snd id_remap)
       \<and> (\<forall>a b. a \<in> set m \<and> b \<in> set m \<and> V < a \<and> V < b \<and> a \<noteq> b \<longrightarrow>
             map_of id_remap a \<noteq> None \<and> map_of id_remap a \<noteq> map_of id_remap b)
       \<and> (\<forall>new\<in>snd ` set id_remap. new \<notin> set m \<and> 1 \<le> new \<and> new \<le> V)
       \<and> new_id_to_old_id = map (\<lambda>(old, new). (new, old)) id_remap
       \<and> m' = map (\<lambda>v. case map_of id_remap v of Some new \<Rightarrow> new | None \<Rightarrow> v) m
       \<and> (\<forall>v\<in>set m'. v \<le> V)"
proof -
  define large where "large = filter (\<lambda>i. V < i) (np_unique m)"
  define av where "av = filter (\<lambda>i. i \<notin> set m) [1..<Suc V]"
  note closed = remap_large_values_closed [OF ok, folded large_def av_def]
  have len: "length large \<le> length av" by (rule closed(1))
  have r: "id_remap = zip large av" by (rule closed(2))
  have n: "new_id_to_old_id = zip av large" by (rule closed(3))
  have m': "m' = map (\<lambda>v. case map_of id_remap v of Some new \<Rightarrow> new | None \<Rightarrow> v) m"
    unfolding r by (rule closed(4))
  have keys: "map fst id_remap = large"
    using len by (simp add: r map_fst_zip_take)
  have lr: "length id_remap = length large"
    using len by (simp add: r)
  have vals: "map snd id_remap = take (length id_remap) av"
    using len by (simp add: r map_snd_zip_take min_def)
  have dk: "distinct (map fst id_remap)"
    by (simp add: keys large_def np_unique_distinct)
  have dv: "distinct (map snd id_remap)"
    unfolding vals by (simp add: av_def)
  have av_set: "new \<notin> set m \<and> 1 \<le> new \<and> new \<le> V" if "new \<in> set av" for new
    using that by (auto simp: av_def)
  have vals_in: "new \<in> set av" if "new \<in> snd ` set id_remap" for new
  proof -
    from that have "new \<in> set (map snd id_remap)" by simp
    then show ?thesis unfolding vals by (rule in_set_takeD)
  qed
  have large_set: "set large = {v \<in> set m. V < v}"
    by (auto simp: large_def np_unique_set)
  have inj: "map_of id_remap a \<noteq> None \<and> map_of id_remap a \<noteq> map_of id_remap b"
    if "a \<in> set m" "b \<in> set m" "V < a" "V < b" "a \<noteq> b" for a b
  proof -
    from that have "a \<in> set large" "b \<in> set large" by (simp_all add: large_set)
    then obtain x y where x: "map_of id_remap a = Some x" and y: "map_of id_remap b = Some y"
      using map_of_zip_in [OF _ len] unfolding r by blast
    have "x \<noteq> y"
    proof
      assume "x = y"
      with x y have "(a, x) \<in> set id_remap" "(b, x) \<in> set id_remap"
        by (auto dest: map_of_SomeD)
      with dv have "a = b" by (rule distinct_snd_inj)
      with that show False by simp
    qed
    with x y show ?thesis by simp
  qed
  have bound: "v \<le> V" if "v \<in> set m'" for v
  proof -
    from that obtain u where u: "u \<in> set m"
      and v: "v = (case map_of id_remap u of Some new \<Rightarrow> new | None \<Rightarrow> u)"
      unfolding m' by auto
    show ?thesis
    proof (cases "V < u")
      case True
      with u have "u \<in> set large" by (simp add: large_set)
      then obtain y where "y \<in> set av" "map_of id_remap u = Some y"
        using map_of_zip_in [OF _ len] unfolding r by blast
      then show ?thesis using av_set v by simp
    next
      case False
      then have "u \<notin> set large" by (simp add: large_set)
      then have "map_of id_remap u = None" unfolding r by (rule map_of_zip_notin)
      with False v show ?thesis by simp
    qed
  qed
  have swap: "new_id_to_old_id = map (\<lambda>(old, new). (new, old)) id_remap"
    unfolding n r by (rule zip_commute)
  have sk: "sorted (map fst id_remap)"
    unfolding keys large_def by (simp add: np_unique_sorted sorted_wrt_filter)
  have sv: "sorted (map snd id_remap)"
    unfolding vals av_def by (rule sorted_wrt_take, rule sorted_wrt_filter, rule sorted_upt)
  show ?thesis
    using keys vals sk sv inj vals_in av_set swap m' bound
    unfolding large_def av_def by blast
qed

theorem remap_large_values_success_witness:
  "remap_large_values [150, 0, 3, 150, 200, 1] 100
      = Inr ([2, 0, 3, 2, 4, 1], [(150, 2), (200, 4)], [(2, 150), (4, 200)])
   \<and> map fst [(150, 2), (200, 4::nat)] = filter (\<lambda>i. 100 < i) (np_unique [150, 0, 3, 150, 200, 1])
   \<and> map snd [(150::nat, 2), (200, 4)]
        = take (length [(150::nat, 2::nat), (200, 4)])
            (filter (\<lambda>i. i \<notin> set [150, 0, 3, 150, 200, 1]) [1..<Suc 100])
   \<and> [2, 0, 3, 2, 4, 1]
        = map (\<lambda>v. case map_of [(150, 2), (200, 4)] v of Some new \<Rightarrow> new | None \<Rightarrow> v)
            [150, 0, 3, 150, 200, 1::nat]"
proof -
  have ok: "remap_large_values [150, 0, 3, 150, 200, 1] 100
      = Inr ([2, 0, 3, 2, 4, 1], [(150, 2), (200, 4)], [(2, 150), (4, 200)])"
    by code_simp
  from remap_large_values_success [OF ok] ok show ?thesis by blast
qed

section \<open>Merging and excluding never add foreground\<close>

lemma structures_data_in: "structures_data a i = Some n \<Longrightarrow> n \<in> set (subtrees a)"
  by (auto simp: structures_data_def dest: map_of_SomeD)

lemma structures_node_in: "structures_node a item = Inr n \<Longrightarrow> n \<in> set (subtrees a)"
  by (auto simp: structures_node_def dest: structures_data_in
      split: option.splits if_splits)

lemma structures_getitem_node:
  "structures_getitem a item = Inr s \<Longrightarrow>
     \<exists>n. structures_node a item = Inr n \<and> s = node_structure n"
  by (auto simp: structures_getitem_def split: sum.splits)

lemma structures_getitem_in:
  "structures_getitem a item = Inr s \<Longrightarrow> s \<in> set (structures_values a)"
  by (auto simp: structures_values_def dest!: structures_getitem_node structures_node_in)

lemma count_nonzero_assign_where:
  "old \<noteq> 0 \<Longrightarrow> length (filter (\<lambda>v. v \<noteq> 0) (assign_where old new m))
     \<le> length (filter (\<lambda>v. v \<noteq> 0) m)"
  by (induction m) (auto simp: assign_where_def)

lemma merge_areas_count_nonzero:
  assumes "\<forall>s\<in>set (structures_values a). struct_id s \<noteq> 0"
    and "merge_areas a target areas m = Inr m'"
  shows "length (filter (\<lambda>v. v \<noteq> 0) m') \<le> length (filter (\<lambda>v. v \<noteq> 0) m)"
  using assms(2)
proof (induction areas arbitrary: m)
  case Nil
  then show ?case by simp
next
  case (Cons area_code rest)
  from Cons.prems obtain s :: atlas_structure where s: "structures_getitem a area_code = Inr s"
    and run: "merge_areas a target rest (assign_where (struct_id s) target m) = Inr m'"
    by (auto split: sum.splits)
  from s assms(1) have "struct_id s \<noteq> 0" by (auto dest: structures_getitem_in)
  then have "length (filter (\<lambda>v. v \<noteq> 0) (assign_where (struct_id s) target m))
     \<le> length (filter (\<lambda>v. v \<noteq> 0) m)"
    by (rule count_nonzero_assign_where)
  with Cons.IH [OF run] show ?case by simp
qed

lemma flatten_regions_loop_count_nonzero:
  assumes "\<forall>s\<in>set (structures_values a). struct_id s \<noteq> 0"
    and "flatten_regions_loop a rs m = Inr m'"
  shows "length (filter (\<lambda>v. v \<noteq> 0) m') \<le> length (filter (\<lambda>v. v \<noteq> 0) m)"
  using assms(2)
proof (induction rs arbitrary: m)
  case Nil
  then show ?case by simp
next
  case (Cons region_name rest)
  from Cons.prems obtain s :: atlas_structure and areas m1 where
    step: "merge_areas a (struct_id s) areas m = Inr m1"
    and run: "flatten_regions_loop a rest m1 = Inr m'"
    by (auto split: sum.splits)
  from assms(1) step
  have "length (filter (\<lambda>v. v \<noteq> 0) m1) \<le> length (filter (\<lambda>v. v \<noteq> 0) m)"
    by (rule merge_areas_count_nonzero)
  with Cons.IH [OF run] show ?case by simp
qed

lemma keep_areas_count_nonzero:
  assumes "\<forall>s\<in>set (structures_values a). struct_id s \<noteq> 0"
    and "keep_areas a ks m = Inr m'"
  shows "length (filter (\<lambda>v. v \<noteq> 0) m') \<le> length (filter (\<lambda>v. v \<noteq> 0) m)"
  using assms(2)
proof (induction ks arbitrary: m)
  case Nil
  then show ?case by simp
next
  case (Cons kept_area_code rest)
  from Cons.prems obtain k :: atlas_structure and areas m1 where
    step: "merge_areas a (struct_id k) areas m = Inr m1"
    and run: "keep_areas a rest m1 = Inr m'"
    by (auto split: sum.splits)
  from assms(1) step
  have "length (filter (\<lambda>v. v \<noteq> 0) m1) \<le> length (filter (\<lambda>v. v \<noteq> 0) m)"
    by (rule merge_areas_count_nonzero)
  with Cons.IH [OF run] show ?case by simp
qed

lemma flatten_level_loop_count_nonzero:
  assumes "\<forall>s\<in>set (structures_values a). struct_id s \<noteq> 0"
    and "flatten_level_loop a level rs m = Inr m'"
  shows "length (filter (\<lambda>v. v \<noteq> 0) m') \<le> length (filter (\<lambda>v. v \<noteq> 0) m)"
  using assms(2)
proof (induction rs arbitrary: m)
  case Nil
  then show ?case by simp
next
  case (Cons region_name rest)
  from Cons.prems obtain ks m1 where
    step: "keep_areas a ks m = Inr m1"
    and run: "flatten_level_loop a level rest m1 = Inr m'"
    by (auto split: sum.splits)
  from assms(1) step
  have "length (filter (\<lambda>v. v \<noteq> 0) m1) \<le> length (filter (\<lambda>v. v \<noteq> 0) m)"
    by (rule keep_areas_count_nonzero)
  with Cons.IH [OF run] show ?case by simp
qed

lemma exclude_loop_pointwise:
  "exclude_loop a rs m = Inr m' \<Longrightarrow>
     m' = map (\<lambda>v. if \<exists>r\<in>set rs. \<exists>s. structures_getitem a r = Inr s \<and> v = struct_id s
                    then 0 else v) m"
proof (induction rs arbitrary: m)
  case Nil
  then show ?case by simp
next
  case (Cons region_name rest)
  from Cons.prems obtain s :: atlas_structure where s: "structures_getitem a region_name = Inr s"
    and run: "exclude_loop a rest (assign_where (struct_id s) 0 m) = Inr m'"
    by (auto split: sum.splits)
  show ?case
    unfolding Cons.IH [OF run] using s by (auto simp: assign_where_def)
qed

lemma count_nonzero_zeroed:
  "0 \<notin> E \<Longrightarrow>
     length (filter (\<lambda>v. v \<noteq> 0) (map (\<lambda>v. if v \<in> E then 0 else v) m))
       + length (filter (\<lambda>v. v \<in> E) m)
     = length (filter (\<lambda>v::nat. v \<noteq> 0) m)"
  by (induction m) auto

text \<open>
  Claim C8. If no region of the hierarchy has id 0, then \<open>flatten_regions\<close> and
  \<open>flatten_descendants_of_level\<close> return a mask with at most as many nonzero voxels as
  their input, and \<open>exclude_regions\<close> lowers the number of nonzero voxels by exactly the
  number of voxels whose value is the id of one of the excluded regions.
\<close>

theorem region_merging_foreground:
  assumes nonzero: "\<forall>s\<in>set (structures_values a). struct_id s \<noteq> 0"
  shows "(flatten_regions m a rs = Inr m1 \<longrightarrow>
            length (filter (\<lambda>v. v \<noteq> 0) m1) \<le> length (filter (\<lambda>v. v \<noteq> 0) m))
       \<and> (flatten_descendants_of_level m a rs level = Inr m2 \<longrightarrow>
            length (filter (\<lambda>v. v \<noteq> 0) m2) \<le> length (filter (\<lambda>v. v \<noteq> 0) m))
       \<and> (exclude_regions m a rs = Inr m3 \<longrightarrow>
            length (filter (\<lambda>v. v \<noteq> 0) m3)
              + length (filter (\<lambda>v. \<exists>r\<in>set rs. \<exists>s. structures_getitem a r = Inr s
                                        \<and> v = struct_id s) m)
            = length (filter (\<lambda>v. v \<noteq> 0) m))"
proof (intro conjI impI)
  assume "flatten_regions m a rs = Inr m1"
  then show "length (filter (\<lambda>v. v \<noteq> 0) m1) \<le> length (filter (\<lambda>v. v \<noteq> 0) m)"
    unfolding flatten_regions_def by (rule flatten_regions_loop_count_nonzero [OF nonzero])
next
  assume "flatten_descendants_of_level m a rs level = Inr m2"
  then have "flatten_level_loop a level rs m = Inr m2"
    by (simp add: flatten_descendants_of_level_def split: if_splits)
  then show "length (filter (\<lambda>v. v \<noteq> 0) m2) \<le> length (filter (\<lambda>v. v \<noteq> 0) m)"
    by (rule flatten_level_loop_count_nonzero [OF nonzero])
next
  assume "exclude_regions m a rs = Inr m3"
  then have run: "exclude_loop a rs m = Inr m3" by (simp add: exclude_regions_def)
  define E where "E = {v. \<exists>r\<in>set rs. \<exists>s. structures_getitem a r = Inr s \<and> v = struct_id s}"
  have "0 \<notin> E" using nonzero by (auto simp: E_def dest: structures_getitem_in)
  then have "length (filter (\<lambda>v. v \<noteq> 0) (map (\<lambda>v. if v \<in> E then 0 else v) m))
       + length (filter (\<lambda>v. v \<in> E) m) = length (filter (\<lambda>v. v \<noteq> 0) m)"
    by (rule count_nonzero_zeroed)
  moreover have "m3 = map (\<lambda>v. if v \<in> E then 0 else v) m"
    using exclude_loop_pointwise [OF run] by (simp add: E_def)
  ultimately show "length (filter (\<lambda>v. v \<noteq> 0) m3)
              + length (filter (\<lambda>v. \<exists>r\<in>set rs. \<exists>s. structures_getitem a r = Inr s
                                        \<and> v = struct_id s) m)
            = length (filter (\<lambda>v. v \<noteq> 0) m)"
    by (simp add: E_def)
qed

theorem region_merging_foreground_witness:
  "0 \<notin> set (map struct_id (structures_values example_atlas))
   \<and> flatten_regions [10, 11, 12, 12, 0] example_atlas [''grey''] = Inr [10, 11, 11, 11, 0]
   \<and> flatten_descendants_of_level [10, 11, 12, 12, 0] example_atlas [''root''] 1
        = Inr [10, 11, 11, 11, 0]
   \<and> exclude_regions [10, 11, 12, 12, 0] example_atlas [''CTX'', ''root''] = Inr [0, 11, 0, 0, 0]
   \<and> length (filter (\<lambda>v. v \<noteq> 0) [10, 11, 11, 11, 0::nat])
        \<le> length (filter (\<lambda>v. v \<noteq> 0) [10, 11, 12, 12, 0::nat])
   \<and> length (filter (\<lambda>v. v \<noteq> 0) [0, 11, 0, 0, 0::nat])
        + length (filter (\<lambda>v. \<exists>r\<in>set [''CTX'', ''root''].
                     \<exists>s. structures_getitem example_atlas r = Inr s \<and> v = struct_id s)
                   [10, 11, 12, 12, 0])
        = length (filter (\<lambda>v. v \<noteq> 0) [10, 11, 12, 12, 0::nat])"
proof -
  have ids: "0 \<notin> set (map struct_id (structures_values example_atlas))"
    by (simp add: structures_values_def example_atlas_def)
  then have nonzero: "\<forall>s\<in>set (structures_values example_atlas). struct_id s \<noteq> 0"
    by auto
  have f: "flatten_regions [10, 11, 12, 12, 0] example_atlas [''grey''] = Inr [10, 11, 11, 11, 0]"
    by code_simp
  have l: "flatten_descendants_of_level [10, 11, 12, 12, 0] example_atlas [''root''] 1
        = Inr [10, 11, 11, 11, 0]"
    by code_simp
  have x: "exclude_regions [10, 11, 12, 12, 0] example_atlas [''CTX'', ''root''] = Inr [0, 11, 0, 0, 0]"
    by code_simp
  from region_merging_foreground [OF nonzero,
      of "[10, 11, 12, 12, 0]" "[''root'']" _ 1 "[10, 11, 11, 11, 0]"] l
  have c2: "length (filter (\<lambda>v. v \<noteq> 0) [10, 11, 11, 11, 0::nat])
        \<le> length (filter (\<lambda>v. v \<noteq> 0) [10, 11, 12, 12, 0::nat])" by blast
  from region_merging_foreground [OF nonzero,
      of "[10, 11, 12, 12, 0]" "[''CTX'', ''root'']" _ _ _ "[0, 11, 0, 0, 0]"] x
  have c3: "length (filter (\<lambda>v. v \<noteq> 0) [0, 11, 0, 0, 0::nat])
        + length (filter (\<lambda>v. \<exists>r\<in>set [''CTX'', ''root''].
                     \<exists>s. structures_getitem example_atlas r = Inr s \<and> v = struct_id s)
                   [10, 11, 12, 12, 0])
        = length (filter (\<lambda>v. v \<noteq> 0) [10, 11, 12, 12, 0::nat])" by blast
  from ids f l x c2 c3 show ?thesis by (intro conjI)
qed

section \<open>Nodes of the hierarchy\<close>

lemma subtrees_head: "subtrees n = n # tl (subtrees n)"
  by (cases n) simp

lemma subtrees_trans:
  "n \<in> set (subtrees t) \<Longrightarrow> set (subtrees n) \<subseteq> set (subtrees t)"
proof (induction t)
  case (Region s cs)
  show ?case
  proof (cases "n = Region s cs")
    case True
    then show ?thesis by simp
  next
    case False
    with Region.prems obtain c where c: "c \<in> set cs" and n: "n \<in> set (subtrees c)"
      by auto
    from Region.IH [OF c n] c show ?thesis by auto
  qed
qed

lemma proper_subtrees_trans:
  "d \<in> set (tl (subtrees n)) \<Longrightarrow> set (subtrees d) \<subseteq> set (tl (subtrees n))"
proof (cases n)
  case (Region s cs)
  assume "d \<in> set (tl (subtrees n))"
  with Region obtain c where c: "c \<in> set cs" and d: "d \<in> set (subtrees c)"
    by auto
  from subtrees_trans [OF d] c Region show ?thesis by auto
qed

lemma proper_subtrees_subset: "set (tl (subtrees n)) \<subseteq> set (subtrees n)"
  by (cases n) auto

lemma distinct_map_concat:
  "distinct (map f (concat xss)) \<Longrightarrow> xs \<in> set xss \<Longrightarrow> distinct (map f xs)"
  by (induction xss) auto

lemma distinct_subtrees:
  "distinct (map f (subtrees t)) \<Longrightarrow> n \<in> set (subtrees t) \<Longrightarrow> distinct (map f (subtrees n))"
proof (induction t)
  case (Region s cs)
  show ?case
  proof (cases "n = Region s cs")
    case True
    with Region.prems show ?thesis by simp
  next
    case False
    with Region.prems obtain c where c: "c \<in> set cs" and n: "n \<in> set (subtrees c)"
      by auto
    from Region.prems(1) have "distinct (map f (concat (map subtrees cs)))" by simp
    then have "distinct (map f (subtrees c))"
      by (rule distinct_map_concat) (use c in simp)
    then show ?thesis using n by (rule Region.IH [OF c])
  qed
qed

lemma own_key_not_below:
  assumes "distinct (map f (subtrees n))"
  shows "f n \<notin> f ` set (tl (subtrees n))"
proof -
  from assms have "distinct (map f (n # tl (subtrees n)))"
    by (simp add: subtrees_head [symmetric])
  then show ?thesis by simp
qed

lemma distinct_ids_subtrees:
  "atlas_consistent a \<Longrightarrow> distinct (map (\<lambda>d. struct_id (node_structure d)) (subtrees a))"
  by (simp add: atlas_consistent_def structures_values_def comp_def)

lemma distinct_acronyms_subtrees:
  "atlas_consistent a \<Longrightarrow> distinct (map (\<lambda>d. struct_acronym (node_structure d)) (subtrees a))"
  by (simp add: atlas_consistent_def structures_values_def comp_def)

lemma node_id_not_below:
  assumes "atlas_consistent a" and "n \<in> set (subtrees a)"
  shows "struct_id (node_structure n)
           \<notin> (\<lambda>d. struct_id (node_structure d)) ` set (tl (subtrees n))"
proof -
  from distinct_ids_subtrees [OF assms(1)] assms(2)
  have "distinct (map (\<lambda>d. struct_id (node_structure d)) (subtrees n))"
    by (rule distinct_subtrees)
  then show ?thesis by (rule own_key_not_below)
qed

lemma node_below_by_id:
  assumes wf: "atlas_consistent a" and n: "n \<in> set (subtrees a)" and x: "x \<in> set (subtrees a)"
    and idx: "struct_id (node_structure x)
                \<in> (\<lambda>d. struct_id (node_structure d)) ` set (tl (subtrees n))"
  shows "x \<in> set (tl (subtrees n))"
proof -
  from idx obtain d where d: "d \<in> set (tl (subtrees n))"
    and eq: "struct_id (node_structure d) = struct_id (node_structure x)" by auto
  from d have "d \<in> set (subtrees n)" using proper_subtrees_subset by auto
  with subtrees_trans [OF n] have da: "d \<in> set (subtrees a)" by auto
  from distinct_ids_subtrees [OF wf]
  have "inj_on (\<lambda>d. struct_id (node_structure d)) (set (subtrees a))"
    by (simp add: distinct_map)
  with da x eq have "d = x" by (auto dest: inj_onD)
  with d show ?thesis by simp
qed

lemma ids_below_trans:
  assumes wf: "atlas_consistent a" and n: "n \<in> set (subtrees a)" and x: "x \<in> set (subtrees a)"
    and idx: "struct_id (node_structure x)
                \<in> (\<lambda>d. struct_id (node_structure d)) ` set (tl (subtrees n))"
  shows "(\<lambda>d. struct_id (node_structure d)) ` set (tl (subtrees x))
           \<subseteq> (\<lambda>d. struct_id (node_structure d)) ` set (tl (subtrees n))"
proof -
  from node_below_by_id [OF wf n x idx] have "set (subtrees x) \<subseteq> set (tl (subtrees n))"
    by (rule proper_subtrees_trans)
  with proper_subtrees_subset [of x] show ?thesis by blast
qed

section \<open>Looking regions up in a consistent atlas\<close>

lemma map_of_rev_distinct:
  assumes "distinct (map k xs)" and "x \<in> set xs"
  shows "map_of (rev (map (\<lambda>y. (k y, v y)) xs)) (k x) = Some (v x)"
proof (rule map_of_is_SomeI)
  have "map fst (rev (map (\<lambda>y. (k y, v y)) xs)) = rev (map k xs)"
    by (simp add: rev_map comp_def)
  with assms(1) show "distinct (map fst (rev (map (\<lambda>y. (k y, v y)) xs)))" by simp
  from assms(2) show "(k x, v x) \<in> set (rev (map (\<lambda>y. (k y, v y)) xs))" by auto
qed

lemma structures_data_node:
  assumes "atlas_consistent a" and "n \<in> set (subtrees a)"
  shows "structures_data a (struct_id (node_structure n)) = Some n"
  unfolding structures_data_def
  using distinct_ids_subtrees [OF assms(1)] assms(2) by (rule map_of_rev_distinct)

lemma acronym_to_id_node:
  assumes "atlas_consistent a" and "n \<in> set (subtrees a)"
  shows "acronym_to_id_map a (struct_acronym (node_structure n)) = Some (struct_id (node_structure n))"
proof -
  have "acronym_to_id_map a
          = map_of (rev (map (\<lambda>d. (struct_acronym (node_structure d), struct_id (node_structure d)))
                          (subtrees a)))"
    by (simp add: acronym_to_id_map_def structures_values_def comp_def)
  then show ?thesis
    using map_of_rev_distinct [OF distinct_acronyms_subtrees [OF assms(1)] assms(2),
        of "\<lambda>d. struct_id (node_structure d)"]
    by simp
qed

text \<open>
  In an atlas with unique ids and acronyms none of which reads as an integer, an acronym
  looked up gives the region that carries it.
\<close>

lemma structures_node_own:
  assumes wf: "atlas_consistent a" and names: "no_integer_acronym a"
    and n: "n \<in> set (subtrees a)"
  shows "structures_node a (struct_acronym (node_structure n)) = Inr n"
proof -
  from n have "node_structure n \<in> set (structures_values a)"
    by (simp add: structures_values_def)
  with names have "py_int (struct_acronym (node_structure n)) = None"
    by (simp add: no_integer_acronym_def list_all_iff)
  with acronym_to_id_node [OF wf n] structures_data_node [OF wf n] show ?thesis
    by (simp add: structures_node_def)
qed

lemma descendants_of_acronym_below:
  "descendants_of_acronym x True t = map (\<lambda>d. struct_acronym (node_structure d)) (subtrees t)"
proof (induction t)
  case (Region s cs)
  have children: "map (descendants_of_acronym x True) cs
          = map (\<lambda>c. map (\<lambda>d. struct_acronym (node_structure d)) (subtrees c)) cs"
    by (rule map_cong [OF refl]) (rule Region.IH)
  show ?case by (simp add: map_concat comp_def children)
qed

lemma descendants_of_acronym_absent:
  "x \<notin> (\<lambda>d. struct_acronym (node_structure d)) ` set (subtrees t)
     \<Longrightarrow> descendants_of_acronym x False t = []"
proof (induction t)
  case (Region s cs)
  have "descendants_of_acronym x False c = []" if "c \<in> set cs" for c
    using that Region.prems by (intro Region.IH) auto
  moreover from Region.prems have "struct_acronym s \<noteq> x" by auto
  ultimately show ?case by simp
qed

lemma descendants_in_one_child:
  assumes "distinct (map (\<lambda>d. struct_acronym (node_structure d)) (concat (map subtrees cs)))"
    and "n \<in> set (concat (map subtrees cs))"
    and "\<And>c. c \<in> set cs \<Longrightarrow> n \<in> set (subtrees c) \<Longrightarrow>
            descendants_of_acronym (struct_acronym (node_structure n)) False c = result"
  shows "concat (map (descendants_of_acronym (struct_acronym (node_structure n)) False) cs) = result"
  using assms
proof (induction cs)
  case Nil
  then show ?case by simp
next
  case (Cons c rest)
  let ?acr = "\<lambda>d. struct_acronym (node_structure d)"
  from Cons.prems(1) have disjoint: "?acr ` set (subtrees c) \<inter> ?acr ` set (concat (map subtrees rest)) = {}"
    and d_rest: "distinct (map ?acr (concat (map subtrees rest)))"
    by simp_all
  show ?case
  proof (cases "n \<in> set (subtrees c)")
    case True
    then have here: "descendants_of_acronym (?acr n) False c = result"
      by (intro Cons.prems(3)) simp_all
    from True disjoint have "?acr n \<notin> ?acr ` set (concat (map subtrees rest))" by blast
    then have "descendants_of_acronym (?acr n) False c' = []" if "c' \<in> set rest" for c'
      using that by (intro descendants_of_acronym_absent) auto
    then have "concat (map (descendants_of_acronym (?acr n) False) rest) = []" by simp
    with here show ?thesis by simp
  next
    case False
    with Cons.prems(2) have n_rest: "n \<in> set (concat (map subtrees rest))" by simp
    with disjoint have "?acr n \<notin> ?acr ` set (subtrees c)" by blast
    then have "descendants_of_acronym (?acr n) False c = []"
      by (rule descendants_of_acronym_absent)
    moreover have "concat (map (descendants_of_acronym (?acr n) False) rest) = result"
      using d_rest n_rest by (rule Cons.IH) (use Cons.prems(3) in simp)
    ultimately show ?thesis by simp
  qed
qed

lemma descendants_of_acronym_node:
  "distinct (map (\<lambda>d. struct_acronym (node_structure d)) (subtrees t)) \<Longrightarrow> n \<in> set (subtrees t)
     \<Longrightarrow> descendants_of_acronym (struct_acronym (node_structure n)) False t
           = map (\<lambda>d. struct_acronym (node_structure d)) (tl (subtrees n))"
proof (induction t)
  case (Region s cs)
  let ?acr = "\<lambda>d. struct_acronym (node_structure d)"
  show ?case
  proof (cases "n = Region s cs")
    case True
    have children: "map (descendants_of_acronym (struct_acronym s) True) cs
            = map (\<lambda>c. map ?acr (subtrees c)) cs"
      by (rule map_cong [OF refl]) (rule descendants_of_acronym_below)
    from True show ?thesis by (simp add: map_concat comp_def children)
  next
    case False
    with Region.prems(2) have n_below: "n \<in> set (concat (map subtrees cs))" by simp
    from Region.prems(1) have d_below: "distinct (map ?acr (concat (map subtrees cs)))"
      and "struct_acronym s \<notin> ?acr ` set (concat (map subtrees cs))"
      by simp_all
    with n_below have other: "struct_acronym s \<noteq> ?acr n" by blast
    have "concat (map (descendants_of_acronym (?acr n) False) cs) = map ?acr (tl (subtrees n))"
      using d_below n_below
    proof (rule descendants_in_one_child)
      fix c assume c: "c \<in> set cs" and n: "n \<in> set (subtrees c)"
      from c have "subtrees c \<in> set (map subtrees cs)" by simp
      with d_below have "distinct (map ?acr (subtrees c))"
        by (rule distinct_map_concat)
      then show "descendants_of_acronym (?acr n) False c = map ?acr (tl (subtrees n))"
        using n by (rule Region.IH [OF c])
    qed
    with other show ?thesis by simp
  qed
qed

lemma get_structure_descendants_node:
  assumes "atlas_consistent a" and "structures_node a item = Inr n"
  shows "get_structure_descendants a item
           = Inr (map (\<lambda>d. struct_acronym (node_structure d)) (tl (subtrees n)))"
proof -
  from assms(2) have "n \<in> set (subtrees a)" by (rule structures_node_in)
  with distinct_acronyms_subtrees [OF assms(1)]
  have "descendants_of_acronym (struct_acronym (node_structure n)) False a
           = map (\<lambda>d. struct_acronym (node_structure d)) (tl (subtrees n))"
    by (rule descendants_of_acronym_node)
  with assms(2) show ?thesis
    by (simp add: get_structure_descendants_def structures_getitem_def)
qed

section \<open>Flattening twice\<close>

lemma flatten_value_append:
  "flatten_value a (xs @ ys) v = flatten_value a ys (flatten_value a xs v)"
  by (induction xs arbitrary: v) (auto split: sum.splits)

lemma flatten_value_fixed:
  "(\<And>r n. r \<in> set rs \<Longrightarrow> structures_node a r = Inr n \<Longrightarrow>
       w \<notin> (\<lambda>d. struct_id (node_structure d)) ` set (tl (subtrees n)))
   \<Longrightarrow> flatten_value a rs w = w"
proof (induction rs)
  case Nil
  then show ?case by simp
next
  case (Cons r rest)
  have rest: "flatten_value a rest w = w"
    by (rule Cons.IH) (use Cons.prems in auto)
  show ?case
  proof (cases "structures_node a r")
    case (Inl e)
    with rest show ?thesis by simp
  next
    case (Inr n)
    with Cons.prems [of r n]
    have "w \<notin> (\<lambda>d. struct_id (node_structure d)) ` set (tl (subtrees n))" by simp
    with Inr rest show ?thesis by simp
  qed
qed

lemma flatten_value_not_below:
  assumes wf: "atlas_consistent a"
  shows "r \<in> set rs \<Longrightarrow> structures_node a r = Inr n \<Longrightarrow>
     flatten_value a rs v \<notin> (\<lambda>d. struct_id (node_structure d)) ` set (tl (subtrees n))"
proof (induction rs arbitrary: r n rule: rev_induct)
  case Nil
  then show ?case by simp
next
  case (snoc q qs)
  let ?ids = "\<lambda>k. (\<lambda>d. struct_id (node_structure d)) ` set (tl (subtrees k))"
  let ?w = "flatten_value a qs v"
  have n_in: "n \<in> set (subtrees a)" using snoc.prems(2) by (rule structures_node_in)
  show ?case
  proof (cases "structures_node a q")
    case (Inl e)
    with snoc.prems have "r \<in> set qs" by auto
    from snoc.IH [OF this snoc.prems(2)] Inl show ?thesis
      by (simp add: flatten_value_append)
  next
    case (Inr k)
    then have k_in: "k \<in> set (subtrees a)" by (rule structures_node_in)
    have res: "flatten_value a (qs @ [q]) v
                 = (if ?w \<in> ?ids k then struct_id (node_structure k) else ?w)"
      using Inr by (simp add: flatten_value_append)
    show ?thesis
    proof (cases "r = q")
      case True
      with Inr snoc.prems(2) have "k = n" by simp
      with node_id_not_below [OF wf n_in] show ?thesis
        unfolding res by auto
    next
      case False
      with snoc.prems(1) have "r \<in> set qs" by simp
      from snoc.IH [OF this snoc.prems(2)] have w: "?w \<notin> ?ids n" .
      show ?thesis
      proof (cases "?w \<in> ?ids k")
        case inside: True
        have "struct_id (node_structure k) \<notin> ?ids n"
        proof
          assume "struct_id (node_structure k) \<in> ?ids n"
          with wf n_in k_in have "?ids k \<subseteq> ?ids n" by (rule ids_below_trans)
          with inside w show False by blast
        qed
        with inside show ?thesis unfolding res by simp
      next
        case outside: False
        with w show ?thesis unfolding res by simp
      qed
    qed
  qed
qed

lemma flatten_value_idempotent:
  assumes "atlas_consistent a"
  shows "flatten_value a rs (flatten_value a rs v) = flatten_value a rs v"
  by (rule flatten_value_fixed) (rule flatten_value_not_below [OF assms])

lemma merge_areas_pointwise:
  assumes "merge_areas a target areas m = Inr m'"
    and "\<And>c s. c \<in> set areas \<Longrightarrow> structures_getitem a c = Inr s \<Longrightarrow> struct_id s \<noteq> target"
  shows "m' = map (\<lambda>v. if \<exists>c\<in>set areas. \<exists>s. structures_getitem a c = Inr s \<and> v = struct_id s
                        then target else v) m"
  using assms
proof (induction areas arbitrary: m)
  case Nil
  then show ?case by simp
next
  case (Cons area_code rest)
  from Cons.prems(1) obtain s :: atlas_structure
    where s: "structures_getitem a area_code = Inr s"
      and run: "merge_areas a target rest (assign_where (struct_id s) target m) = Inr m'"
    by (auto split: sum.splits)
  have IH: "m' = map (\<lambda>v. if \<exists>c\<in>set rest. \<exists>s. structures_getitem a c = Inr s \<and> v = struct_id s
                        then target else v) (assign_where (struct_id s) target m)"
    by (rule Cons.IH [OF run]) (use Cons.prems(2) in auto)
  have "\<And>c s'. c \<in> set rest \<Longrightarrow> structures_getitem a c = Inr s' \<Longrightarrow> struct_id s' \<noteq> target"
    using Cons.prems(2) by auto
  then show ?case
    unfolding IH using s by (auto simp: assign_where_def)
qed

lemma descendants_ids:
  assumes wf: "atlas_consistent a" and names: "no_integer_acronym a"
    and n: "n \<in> set (subtrees a)"
  shows "(\<exists>c\<in>set (map (\<lambda>d. struct_acronym (node_structure d)) (tl (subtrees n))).
            \<exists>s. structures_getitem a c = Inr s \<and> v = struct_id s)
         = (v \<in> (\<lambda>d. struct_id (node_structure d)) ` set (tl (subtrees n)))"
proof -
  have look: "structures_getitem a (struct_acronym (node_structure d)) = Inr (node_structure d)"
    if "d \<in> set (tl (subtrees n))" for d
  proof -
    from that proper_subtrees_subset [of n] subtrees_trans [OF n]
    have "d \<in> set (subtrees a)" by blast
    with wf names have "structures_node a (struct_acronym (node_structure d)) = Inr d"
      by (rule structures_node_own)
    then show ?thesis by (simp add: structures_getitem_def)
  qed
  then show ?thesis by (auto simp: image_iff)
qed

lemma flatten_regions_loop_pointwise:
  assumes wf: "atlas_consistent a" and names: "no_integer_acronym a"
  shows "flatten_regions_loop a rs m = Inr m' \<Longrightarrow> m' = map (flatten_value a rs) m"
proof (induction rs arbitrary: m)
  case Nil
  then show ?case by simp
next
  case (Cons region_name rest)
  from Cons.prems obtain s :: atlas_structure and areas m1
    where s: "structures_getitem a region_name = Inr s"
      and areas: "get_structure_descendants a region_name = Inr areas"
      and merge: "merge_areas a (struct_id s) areas m = Inr m1"
      and run: "flatten_regions_loop a rest m1 = Inr m'"
    by (auto split: sum.splits)
  from s obtain n where n: "structures_node a region_name = Inr n"
    and sn: "s = node_structure n"
    by (auto dest: structures_getitem_node)
  from n have n_in: "n \<in> set (subtrees a)" by (rule structures_node_in)
  from areas get_structure_descendants_node [OF wf n]
  have ar: "areas = map (\<lambda>d. struct_acronym (node_structure d)) (tl (subtrees n))"
    by simp
  have other: "struct_id s' \<noteq> struct_id s"
    if "c \<in> set areas" "structures_getitem a c = Inr s'" for c s'
  proof -
    from that have "struct_id s' \<in> (\<lambda>d. struct_id (node_structure d)) ` set (tl (subtrees n))"
      using descendants_ids [OF wf names n_in, of "struct_id s'"] unfolding ar by blast
    with node_id_not_below [OF wf n_in] show ?thesis unfolding sn by auto
  qed
  from merge_areas_pointwise [OF merge other]
  have m1: "m1 = map (\<lambda>v. if v \<in> (\<lambda>d. struct_id (node_structure d)) ` set (tl (subtrees n))
                        then struct_id (node_structure n) else v) m"
    unfolding ar descendants_ids [OF wf names n_in] sn by simp
  from Cons.IH [OF run] show ?case
    unfolding m1 using n by (simp add: comp_def)
qed

lemma merge_areas_success:
  "isl (merge_areas a target areas m) = isl (merge_areas a target areas x)"
  by (induction areas arbitrary: m x) (auto split: sum.splits)

lemma flatten_regions_loop_success:
  "isl (flatten_regions_loop a rs m) = isl (flatten_regions_loop a rs x)"
proof (induction rs arbitrary: m x)
  case Nil
  then show ?case by simp
next
  case (Cons region_name rest)
  show ?case
  proof (cases "structures_getitem a region_name")
    case (Inl e)
    then show ?thesis by simp
  next
    case s: (Inr s)
    show ?thesis
    proof (cases "get_structure_descendants a region_name")
      case (Inl e)
      with s show ?thesis by simp
    next
      case d: (Inr areas)
      from merge_areas_success [of a "struct_id s" areas m x] Cons.IH s d
      show ?thesis by (auto split: sum.splits)
    qed
  qed
qed

text \<open>
  Claim C7, as stated, at two concrete inputs; in both hierarchies the ids are unique.
  In the first the region below \<open>X\<close> has the acronym \<open>30\<close>, which
  \<^verbatim>\<open>atlas.structures\<close> reads as the id of region \<open>Y\<close>: flattening \<open>X\<close> and \<open>Y\<close>
  turns the mask \<open>[30, 31]\<close> into \<open>[20, 30]\<close>, and flattening again turns that into
  \<open>[20, 20]\<close>. In the second two regions share the acronym \<open>Y\<close>: the mask \<open>[4]\<close>
  becomes \<open>[7]\<close>, and then \<open>[5]\<close>.
\<close>

theorem flatten_regions_twice_differs:
  "flatten_regions [30, 31] example_atlas_numeral [''X'', ''Y''] = Inr [20, 30]
   \<and> flatten_regions [20, 30] example_atlas_numeral [''X'', ''Y''] = Inr [20, 20]
   \<and> flatten_regions [4] example_atlas_shared_acronym [''X'', ''Y''] = Inr [7]
   \<and> flatten_regions [7] example_atlas_shared_acronym [''X'', ''Y''] = Inr [5]"
  by code_simp

text \<open>
  Claim C7, amended. For an atlas in which the ids are unique, the acronyms are unique and
  no acronym reads as an integer, every mask and every list of region names: if
  \<open>flatten_regions\<close> returns a mask, then applying it again with the same atlas and
  list to that mask returns the same mask.
\<close>

theorem flatten_regions_idempotent:
  assumes wf: "atlas_consistent a" and names: "no_integer_acronym a"
    and once: "flatten_regions m a region_acronyms = Inr m'"
  shows "flatten_regions m' a region_acronyms = Inr m'"
proof -
  from once have run: "flatten_regions_loop a region_acronyms m = Inr m'"
    by (simp add: flatten_regions_def)
  then have "\<not> isl (flatten_regions_loop a region_acronyms m)" by simp
  then have "\<not> isl (flatten_regions_loop a region_acronyms m')"
    using flatten_regions_loop_success [of a region_acronyms m m'] by simp
  then obtain m'' where again: "flatten_regions_loop a region_acronyms m' = Inr m''"
    by (cases "flatten_regions_loop a region_acronyms m'") auto
  have "m'' = map (flatten_value a region_acronyms) m'"
    using wf names again by (rule flatten_regions_loop_pointwise)
  also have "m' = map (flatten_value a region_acronyms) m"
    using wf names run by (rule flatten_regions_loop_pointwise)
  finally have "m'' = map (flatten_value a region_acronyms) m"
    by (simp add: flatten_value_idempotent [OF wf])
  also have "\<dots> = m'"
    using flatten_regions_loop_pointwise [OF wf names run] by simp
  finally show ?thesis using again by (simp add: flatten_regions_def)
qed

theorem flatten_regions_idempotent_witness:
  "atlas_consistent example_atlas \<and> no_integer_acronym example_atlas
   \<and> flatten_regions [10, 11, 12, 12, 0] example_atlas [''grey'', ''10''] = Inr [10, 10, 10, 10, 0]
   \<and> flatten_regions [10, 10, 10, 10, 0] example_atlas [''grey'', ''10''] = Inr [10, 10, 10, 10, 0]"
proof -
  have wf: "atlas_consistent example_atlas"
    by (simp add: atlas_consistent_def structures_values_def example_atlas_def)
  have names: "no_integer_acronym example_atlas"
    by code_simp
  have once: "flatten_regions [10, 11, 12, 12, 0] example_atlas [''grey'', ''10'']
                = Inr [10, 10, 10, 10, 0]"
    by code_simp
  from flatten_regions_idempotent [OF wf names once] wf names once show ?thesis by blast
qed

section \<open>Fragment records and the cleaned mask\<close>

lemma components_loop_info:
  "snd (components_loop rid rname min_size labeled es (c, info))
     = info @ map (\<lambda>(i, sz). (rid, rname, i, sz, sz < min_size)) es"
  by (induction es arbitrary: c info) auto

lemma assign_where_labeled_nth:
  "length labeled = length c \<Longrightarrow> p < length c \<Longrightarrow>
     assign_where_labeled labeled i new c ! p = (if labeled ! p = i then new else c ! p)"
  by (simp add: assign_where_labeled_def)

lemma assign_where_labeled_length:
  "length labeled = length c \<Longrightarrow> length (assign_where_labeled labeled i new c) = length c"
  by (simp add: assign_where_labeled_def)

lemma components_loop_mask:
  "length labeled = length c \<Longrightarrow>
     length (fst (components_loop rid rname min_size labeled es (c, info))) = length c
     \<and> (\<forall>p<length c. fst (components_loop rid rname min_size labeled es (c, info)) ! p
           = (if \<exists>(i, sz)\<in>set es. sz < min_size \<and> labeled ! p = i then 0 else c ! p))"
proof (induction es arbitrary: c info)
  case Nil
  then show ?case by simp
next
  case (Cons e es)
  obtain i sz where e: "e = (i, sz)" by (cases e)
  show ?case
  proof (cases "sz < min_size")
    case True
    let ?c1 = "assign_where_labeled labeled i 0 c"
    have len: "length labeled = length ?c1"
      using Cons.prems by (simp add: assign_where_labeled_length)
    from Cons.IH [OF len, of "info @ [(rid, rname, i, sz, True)]"] True Cons.prems
    show ?thesis
      by (auto simp: e assign_where_labeled_length assign_where_labeled_nth)
  next
    case False
    from Cons.IH [OF Cons.prems, of "info @ [(rid, rname, i, sz, False)]"] False
    show ?thesis by (auto simp: e)
  qed
qed

lemma enumerate_sizes:
  "xs \<noteq> [] \<Longrightarrow> enumerate_from 1 (drop 1 (bincount xs))
     = map (\<lambda>i. (i, count_list xs i)) [1..<Suc (Max (set xs))]"
  by (simp add: enumerate_from_def bincount_def drop_map zip_map2 zip_same_conv_map comp_def)

lemma count_list_upto_Max:
  "xs \<noteq> [] \<Longrightarrow> sum_list (map (count_list xs) [1..<Suc (Max (set xs))])
     = length (filter (\<lambda>l. l \<noteq> 0) xs)"
proof -
  assume "xs \<noteq> []"
  let ?M = "Max (set xs)"
  have "set xs \<subseteq> {0..<Suc ?M}" by (auto simp: less_Suc_eq_le)
  then have "sum (count_list xs) {0..<Suc ?M} = length xs"
    by (rule sum_count_set) simp
  then have "sum_list (map (count_list xs) [0..<Suc ?M]) = length xs"
    by (simp only: interv_sum_list_conv_sum_set_nat atLeastLessThan_upt)
  moreover have "[0..<Suc ?M] = 0 # [1..<Suc ?M]"
    using upt_conv_Cons [of 0 "Suc ?M"] by simp
  ultimately have "sum_list (map (count_list xs) (0 # [1..<Suc ?M])) = length xs"
    by (simp only:)
  then have "count_list xs 0 + sum_list (map (count_list xs) [1..<Suc ?M]) = length xs"
    by (simp only: list.map sum_list.Cons)
  moreover have "length (filter (\<lambda>l. l \<noteq> 0) xs) + count_list xs 0 = length xs"
    by (induction xs) auto
  ultimately show ?thesis by simp
qed


lemma fragments_loop_info:
  "snd (fragments_loop label structure m min_size names rids st)
     = snd st @ concat (map (\<lambda>rid. map (\<lambda>(i, sz). (rid, fragment_name names rid, i, sz, sz < min_size))
          (enumerate_from 1 (drop 1 (bincount (region_labels label structure m rid))))) rids)"
proof (induction rids arbitrary: st)
  case Nil
  then show ?case by simp
next
  case (Cons rid rest)
  obtain c info where st: "st = (c, info)" by (cases st)
  show ?case
    by (simp add: Cons.IH Let_def st components_loop_info)
qed

lemma fragments_loop_mask:
  assumes "\<forall>rid\<in>set rids. length (region_labels label structure m rid) = length c"
  shows "length (fst (fragments_loop label structure m min_size names rids (c, info))) = length c
     \<and> (\<forall>p<length c. fst (fragments_loop label structure m min_size names rids (c, info)) ! p
           = (if \<exists>rid\<in>set rids.
                   \<exists>(i, sz)\<in>set (enumerate_from 1
                                    (drop 1 (bincount (region_labels label structure m rid)))).
                     sz < min_size \<and> region_labels label structure m rid ! p = i
              then 0 else c ! p))"
  using assms
proof (induction rids arbitrary: c info)
  case Nil
  then show ?case by simp
next
  case (Cons rid rest)
  let ?L = "region_labels label structure m rid"
  let ?es = "enumerate_from 1 (drop 1 (bincount ?L))"
  let ?X = "components_loop rid (fragment_name names rid) min_size ?L ?es (c, info)"
  have lenL: "length ?L = length c" using Cons.prems by simp
  note step = components_loop_mask [OF lenL, of rid "fragment_name names rid" min_size ?es info]
  have len1: "length (fst ?X) = length c" using step by simp
  have nth1: "fst ?X ! p = (if \<exists>(i, sz)\<in>set ?es. sz < min_size \<and> ?L ! p = i then 0 else c ! p)"
    if "p < length c" for p using step that by simp
  have rest_len: "\<forall>r\<in>set rest. length (region_labels label structure m r) = length (fst ?X)"
    using Cons.prems len1 by simp
  note IH = Cons.IH [OF rest_len, of "snd ?X"]
  have unfold: "fragments_loop label structure m min_size names (rid # rest) (c, info)
          = fragments_loop label structure m min_size names rest (fst ?X, snd ?X)"
    by (simp add: Let_def)
  show ?case
    unfolding unfold using IH len1 nth1 by auto
qed

lemma max_label_positions:
  assumes "p < length xs"
  shows "(\<exists>(i, sz)\<in>set (map (\<lambda>i. (i, count_list xs i)) [1..<Suc (Max (set xs))]).
             sz < k \<and> xs ! p = i)
         = (xs ! p \<noteq> 0 \<and> count_list xs (xs ! p) < k)"
proof -
  from assms have "xs ! p \<in> set xs" by simp
  then have "xs ! p \<le> Max (set xs)" by simp
  then show ?thesis by auto
qed

lemma concat_single_chunk:
  "distinct rids \<Longrightarrow> rid \<in> set rids \<Longrightarrow> (\<And>r. r \<in> set rids \<Longrightarrow> r \<noteq> rid \<Longrightarrow> f r = [])
     \<Longrightarrow> concat (map f rids) = f rid"
proof (induction rids)
  case Nil
  then show ?case by simp
next
  case (Cons r rest)
  show ?case
  proof (cases "r = rid")
    case True
    with Cons.prems have "\<And>q. q \<in> set rest \<Longrightarrow> f q = []" by auto
    then have "concat (map f rest) = []" by simp
    with True show ?thesis by simp
  next
    case False
    with Cons.prems have "f r = []" "rid \<in> set rest" "distinct rest" by auto
    moreover from this Cons.prems have "concat (map f rest) = f rid"
      by (intro Cons.IH) auto
    ultimately show ?thesis by simp
  qed
qed

lemma filter_absent: "x \<notin> set xs \<Longrightarrow> filter (\<lambda>y. y = x) xs = []"
  by (induction xs) auto

lemma filter_single: "distinct xs \<Longrightarrow> x \<in> set xs \<Longrightarrow> filter (\<lambda>y. y = x) xs = [x]"
  by (induction xs) (auto simp: filter_absent)

lemma distinct_region_index_pairs:
  "distinct rids \<Longrightarrow> (\<And>r. distinct (g r)) \<Longrightarrow>
     distinct (concat (map (\<lambda>r. map (\<lambda>i. (r, i)) (g r)) rids))"
  by (induction rids) (auto simp: distinct_map inj_on_def)

lemma region_ids_distinct: "distinct (filter (\<lambda>i. i \<noteq> 0) (np_unique m))"
  by (simp add: np_unique_distinct)

lemma region_ids_set: "set (filter (\<lambda>i. i \<noteq> 0) (np_unique m)) = {v \<in> set m. v \<noteq> 0}"
  by (auto simp: np_unique_set)

lemma labels_contract:
  assumes "map (\<lambda>l. l \<noteq> 0) labeled = map (\<lambda>v. v = rid) m"
  shows "length labeled = length m"
    and "p < length m \<Longrightarrow> (labeled ! p \<noteq> 0) = (m ! p = rid)"
    and "length (filter (\<lambda>l. l \<noteq> 0) labeled) = count_list m rid"
proof -
  from assms have "length (map (\<lambda>l. l \<noteq> 0) labeled) = length (map (\<lambda>v. v = rid) m)"
    by simp
  then show len: "length labeled = length m" by simp
  show "(labeled ! p \<noteq> 0) = (m ! p = rid)" if "p < length m"
  proof -
    from that len have "map (\<lambda>l. l \<noteq> 0) labeled ! p = (labeled ! p \<noteq> 0)" by simp
    moreover from that have "map (\<lambda>v. v = rid) m ! p = (m ! p = rid)" by simp
    ultimately show ?thesis using assms by simp
  qed
  have "length (filter (\<lambda>l. l \<noteq> 0) labeled) = length (filter (\<lambda>b. b) (map (\<lambda>l. l \<noteq> 0) labeled))"
    by (simp add: filter_map comp_def)
  also have "\<dots> = length (filter (\<lambda>b. b) (map (\<lambda>v. v = rid) m))" by (simp only: assms)
  also have "\<dots> = length (filter (\<lambda>v. v = rid) m)" by (simp add: filter_map comp_def)
  also have "\<dots> = count_list m rid"
    by (induction m) auto
  finally show "length (filter (\<lambda>l. l \<noteq> 0) labeled) = count_list m rid" .
qed


lemma region_chunk:
  assumes "map (\<lambda>l. l \<noteq> 0) (region_labels label structure m rid) = map (\<lambda>v. v = rid) m"
    and "rid \<in> set m"
  shows "map (\<lambda>(i, sz). (rid, rname, i, sz, sz < min_size))
           (enumerate_from 1 (drop 1 (bincount (region_labels label structure m rid))))
         = map (\<lambda>i. (rid, rname, i, count_list (region_labels label structure m rid) i,
                      count_list (region_labels label structure m rid) i < min_size))
             [1..<Suc (Max (set (region_labels label structure m rid)))]"
proof -
  from assms(2) have "m \<noteq> []" by auto
  with labels_contract(1) [OF assms(1)] have ne: "region_labels label structure m rid \<noteq> []"
    by auto
  show ?thesis
    by (simp only: enumerate_sizes [OF ne] map_map comp_def prod.case)
qed

lemma filter_region_chunk:
  "filter (\<lambda>(r, n, j, sz, rm). r = rid)
     (map (\<lambda>(i, sz). (q, rname, i, sz, sz < min_size)) es)
   = (if q = rid then map (\<lambda>(i, sz). (q, rname, i, sz, sz < min_size)) es else [])"
  by (induction es) auto

text \<open>
  Claim C5. Let \<open>rid\<close> be a nonzero identifier of the input mask, and let the labelling
  number exactly the voxels of that region (nonzero where the mask equals \<open>rid\<close>, zero
  elsewhere, as \<^verbatim>\<open>scipy.ndimage.label\<close> does). Then the voxel counts of the
  fragment records of \<open>rid\<close> add up to the number of voxels of the input mask that carry
  \<open>rid\<close>.
\<close>

theorem remove_small_fragments_sizes_sum:
  assumes rid: "rid \<in> set m" "rid \<noteq> 0"
    and labels: "map (\<lambda>l. l \<noteq> 0) (region_labels label structure m rid) = map (\<lambda>v. v = rid) m"
    and run: "remove_small_fragments label m min_size structure a = (cleaned_mask, fragment_info)"
  shows "sum_list (map (\<lambda>(r, n, j, sz, rm). sz)
                    (filter (\<lambda>(r, n, j, sz, rm). r = rid) fragment_info))
         = count_list m rid"
proof -
  let ?rids = "filter (\<lambda>i. i \<noteq> 0) (np_unique m)"
  let ?L = "region_labels label structure m"
  let ?chunk = "\<lambda>r. map (\<lambda>(i, sz). (r, fragment_name (id_to_name a) r, i, sz, sz < min_size))
                       (enumerate_from 1 (drop 1 (bincount (?L r))))"
  from run have "fragment_info
      = snd (fragments_loop label structure m min_size (id_to_name a) ?rids (m, []))"
    by (simp add: remove_small_fragments_def Let_def)
  then have info: "fragment_info = concat (map ?chunk ?rids)"
    by (simp add: fragments_loop_info)
  have rid_in: "rid \<in> set ?rids" using rid unfolding region_ids_set by simp
  have "filter (\<lambda>(r, n, j, sz, rm). r = rid) fragment_info
          = concat (map (\<lambda>r. filter (\<lambda>(r, n, j, sz, rm). r = rid) (?chunk r)) ?rids)"
    by (simp add: info filter_concat comp_def)
  also have "\<dots> = filter (\<lambda>(r, n, j, sz, rm). r = rid) (?chunk rid)"
    using region_ids_distinct rid_in
    by (rule concat_single_chunk) (simp add: filter_region_chunk)
  also have "\<dots> = ?chunk rid" by (simp add: filter_region_chunk)
  also have "\<dots> = map (\<lambda>i. (rid, fragment_name (id_to_name a) rid, i, count_list (?L rid) i,
                      count_list (?L rid) i < min_size)) [1..<Suc (Max (set (?L rid)))]"
    using labels rid(1) by (rule region_chunk)
  finally have "sum_list (map (\<lambda>(r, n, j, sz, rm). sz)
                    (filter (\<lambda>(r, n, j, sz, rm). r = rid) fragment_info))
      = sum_list (map (count_list (?L rid)) [1..<Suc (Max (set (?L rid)))])"
    by (simp add: comp_def)
  also have "\<dots> = length (filter (\<lambda>l. l \<noteq> 0) (?L rid))"
  proof (rule count_list_upto_Max)
    from rid(1) have "m \<noteq> []" by auto
    with labels_contract(1) [OF labels] show "?L rid \<noteq> []" by auto
  qed
  also have "\<dots> = count_list m rid" using labels by (rule labels_contract(3))
  finally show ?thesis .
qed


theorem remove_small_fragments_sizes_sum_witness:
  "10 \<in> set [10, 10, 10, 0, 10, 10, 12::nat] \<and> (10::nat) \<noteq> 0
   \<and> map (\<lambda>l. l \<noteq> 0) (region_labels label_runs () [10, 10, 10, 0, 10, 10, 12] 10)
        = map (\<lambda>v. v = 10) [10, 10, 10, 0, 10, 10, 12::nat]
   \<and> remove_small_fragments label_runs [10, 10, 10, 0, 10, 10, 12] 3 () example_atlas
        = ([10, 10, 10, 0, 0, 0, 0],
           [(10, ''root region'', 1, 3, False), (10, ''root region'', 2, 2, True),
            (12, ''cortex'', 1, 1, True)])
   \<and> sum_list (map (\<lambda>(r, n, j, sz, rm). sz)
         (filter (\<lambda>(r, n, j, sz, rm). r = 10)
            [(10::nat, ''root region'', 1::nat, 3::nat, False), (10, ''root region'', 2, 2, True),
             (12, ''cortex'', 1, 1, True)]))
        = count_list [10, 10, 10, 0, 10, 10, 12::nat] 10"
proof -
  have mem: "10 \<in> set [10, 10, 10, 0, 10, 10, 12::nat]" and nz: "(10::nat) \<noteq> 0" by simp_all
  have labels: "map (\<lambda>l. l \<noteq> 0) (region_labels label_runs () [10, 10, 10, 0, 10, 10, 12] 10)
        = map (\<lambda>v. v = 10) [10, 10, 10, 0, 10, 10, 12::nat]"
    by (simp add: label_runs_def)
  have run: "remove_small_fragments label_runs [10, 10, 10, 0, 10, 10, 12] 3 () example_atlas
        = ([10, 10, 10, 0, 0, 0, 0],
           [(10, ''root region'', 1, 3, False), (10, ''root region'', 2, 2, True),
            (12, ''cortex'', 1, 1, True)])"
    by code_simp
  from remove_small_fragments_sizes_sum [OF mem nz labels run] mem nz labels run
  show ?thesis by blast
qed

lemma remove_small_fragments_info:
  assumes labels: "\<forall>rid\<in>set m. rid \<noteq> 0 \<longrightarrow>
        map (\<lambda>l. l \<noteq> 0) (region_labels label structure m rid) = map (\<lambda>v. v = rid) m"
    and run: "remove_small_fragments label m min_size structure a = (cleaned_mask, fragment_info)"
  shows "fragment_info
     = concat (map (\<lambda>rid. map (\<lambda>i. (rid, fragment_name (id_to_name a) rid, i,
                                    count_list (region_labels label structure m rid) i,
                                    count_list (region_labels label structure m rid) i < min_size))
                           [1..<Suc (Max (set (region_labels label structure m rid)))])
               (filter (\<lambda>i. i \<noteq> 0) (np_unique m)))"
proof -
  let ?rids = "filter (\<lambda>i. i \<noteq> 0) (np_unique m)"
  from run have "fragment_info
      = snd (fragments_loop label structure m min_size (id_to_name a) ?rids (m, []))"
    by (simp add: remove_small_fragments_def Let_def)
  then have "fragment_info
      = concat (map (\<lambda>rid. map (\<lambda>(i, sz). (rid, fragment_name (id_to_name a) rid, i, sz, sz < min_size))
          (enumerate_from 1 (drop 1 (bincount (region_labels label structure m rid))))) ?rids)"
    by (simp add: fragments_loop_info)
  also have "\<dots> = concat (map (\<lambda>rid. map (\<lambda>i. (rid, fragment_name (id_to_name a) rid, i,
                                    count_list (region_labels label structure m rid) i,
                                    count_list (region_labels label structure m rid) i < min_size))
                           [1..<Suc (Max (set (region_labels label structure m rid)))]) ?rids)"
  proof (rule arg_cong [where f = concat], rule map_cong [OF refl])
    fix rid assume "rid \<in> set ?rids"
    then have "rid \<in> set m" "rid \<noteq> 0" unfolding region_ids_set by simp_all
    with labels have "map (\<lambda>l. l \<noteq> 0) (region_labels label structure m rid) = map (\<lambda>v. v = rid) m"
      by simp
    then show "map (\<lambda>(i, sz). (rid, fragment_name (id_to_name a) rid, i, sz, sz < min_size))
          (enumerate_from 1 (drop 1 (bincount (region_labels label structure m rid))))
        = map (\<lambda>i. (rid, fragment_name (id_to_name a) rid, i,
                                    count_list (region_labels label structure m rid) i,
                                    count_list (region_labels label structure m rid) i < min_size))
                           [1..<Suc (Max (set (region_labels label structure m rid)))]"
      using \<open>rid \<in> set m\<close> by (rule region_chunk)
  qed
  finally show ?thesis .
qed

lemma remove_small_fragments_mask:
  assumes labels: "\<forall>rid\<in>set m. rid \<noteq> 0 \<longrightarrow>
        map (\<lambda>l. l \<noteq> 0) (region_labels label structure m rid) = map (\<lambda>v. v = rid) m"
    and run: "remove_small_fragments label m min_size structure a = (cleaned_mask, fragment_info)"
  shows "length cleaned_mask = length m"
    and "p < length m \<Longrightarrow> cleaned_mask ! p
           = (if m ! p \<noteq> 0
                 \<and> count_list (region_labels label structure m (m ! p))
                      (region_labels label structure m (m ! p) ! p) < min_size
              then 0 else m ! p)"
proof -
  let ?rids = "filter (\<lambda>i. i \<noteq> 0) (np_unique m)"
  let ?L = "region_labels label structure m"
  have contract: "map (\<lambda>l. l \<noteq> 0) (?L rid) = map (\<lambda>v. v = rid) m" if "rid \<in> set ?rids" for rid
    using that labels unfolding region_ids_set by simp
  have lens: "\<forall>rid\<in>set ?rids. length (?L rid) = length m"
    using labels_contract(1) [OF contract] by blast
  from run have cm: "cleaned_mask
      = fst (fragments_loop label structure m min_size (id_to_name a) ?rids (m, []))"
    by (simp add: remove_small_fragments_def Let_def)
  note loop = fragments_loop_mask [of ?rids label "structure" m m min_size "id_to_name a" "[]",
      OF lens]
  from loop show "length cleaned_mask = length m" unfolding cm by simp
  show "cleaned_mask ! p
           = (if m ! p \<noteq> 0 \<and> count_list (?L (m ! p)) (?L (m ! p) ! p) < min_size
              then 0 else m ! p)" if p: "p < length m"
  proof -
    have enum: "(\<exists>(i, sz)\<in>set (enumerate_from 1 (drop 1 (bincount (?L rid)))).
                    sz < min_size \<and> ?L rid ! p = i)
                = (m ! p = rid \<and> count_list (?L rid) (?L rid ! p) < min_size)"
      if rid: "rid \<in> set ?rids" for rid
    proof -
      have len: "length (?L rid) = length m" using lens rid by simp
      with p have ne: "?L rid \<noteq> []" by auto
      have "(\<exists>(i, sz)\<in>set (enumerate_from 1 (drop 1 (bincount (?L rid)))).
                    sz < min_size \<and> ?L rid ! p = i)
             = (?L rid ! p \<noteq> 0 \<and> count_list (?L rid) (?L rid ! p) < min_size)"
        unfolding enumerate_sizes [OF ne]
        by (rule max_label_positions) (use p len in simp)
      also have "(?L rid ! p \<noteq> 0) = (m ! p = rid)"
        using contract [OF rid] p by (rule labels_contract(2))
      finally show ?thesis .
    qed
    have "(\<exists>rid\<in>set ?rids. \<exists>(i, sz)\<in>set (enumerate_from 1 (drop 1 (bincount (?L rid)))).
                    sz < min_size \<and> ?L rid ! p = i)
          = (\<exists>rid\<in>set ?rids. m ! p = rid \<and> count_list (?L rid) (?L rid ! p) < min_size)"
      using enum by blast
    also have "\<dots> = (m ! p \<noteq> 0 \<and> count_list (?L (m ! p)) (?L (m ! p) ! p) < min_size)"
      using p unfolding region_ids_set by auto
    finally show ?thesis using loop p unfolding cm by simp
  qed
qed


lemma filter_chunk_index:
  "filter (\<lambda>(r, n, j, sz, rm). r = rid \<and> j = i)
     (map (\<lambda>i. (q, nm, i, cnt i, cnt i < k)) xs)
   = (if q = rid then map (\<lambda>i. (q, nm, i, cnt i, cnt i < k)) (filter (\<lambda>j. j = i) xs) else [])"
  by (induction xs) auto

lemma chunk_records:
  assumes "fragment_info
     = concat (map (\<lambda>r. map (\<lambda>i. (r, nm r, i, cnt r i, cnt r i < k)) [1..<Suc (M r)]) rids)"
    and "distinct rids"
  shows "rid \<in> set rids \<Longrightarrow> 1 \<le> i \<Longrightarrow> i \<le> M rid \<Longrightarrow>
           filter (\<lambda>(r, n, j, sz, rm). r = rid \<and> j = i) fragment_info
             = [(rid, nm rid, i, cnt rid i, cnt rid i < k)]"
    and "\<forall>(r, n, j, sz, rm)\<in>set fragment_info. r \<in> set rids \<and> 1 \<le> j \<and> j \<le> M r"
    and "distinct (map (\<lambda>(r, n, j, sz, rm). (r, j)) fragment_info)"
proof -
  let ?chunk = "\<lambda>r. map (\<lambda>i. (r, nm r, i, cnt r i, cnt r i < k)) [1..<Suc (M r)]"
  let ?P = "\<lambda>(r, n, j, sz, rm). r = rid \<and> j = i"
  have filter_chunk: "filter ?P (?chunk r)
        = (if r = rid then map (\<lambda>i. (r, nm r, i, cnt r i, cnt r i < k))
                                (filter (\<lambda>j. j = i) [1..<Suc (M r)]) else [])" for r
    by (rule filter_chunk_index)
  show "filter ?P fragment_info = [(rid, nm rid, i, cnt rid i, cnt rid i < k)]"
    if rid: "rid \<in> set rids" and i: "1 \<le> i" "i \<le> M rid"
  proof -
    have "filter ?P fragment_info = concat (map (\<lambda>r. filter ?P (?chunk r)) rids)"
      unfolding assms(1) by (simp add: filter_concat comp_def)
    also have "\<dots> = filter ?P (?chunk rid)"
      using assms(2) rid by (rule concat_single_chunk) (simp only: filter_chunk if_False)
    also have "\<dots> = map (\<lambda>i. (rid, nm rid, i, cnt rid i, cnt rid i < k))
                       (filter (\<lambda>j. j = i) [1..<Suc (M rid)])"
      by (simp only: filter_chunk refl if_True)
    also have "filter (\<lambda>j. j = i) [1..<Suc (M rid)] = [i]"
      by (rule filter_single) (use i in auto)
    finally show ?thesis by (simp only: list.map)
  qed
  show "\<forall>(r, n, j, sz, rm)\<in>set fragment_info. r \<in> set rids \<and> 1 \<le> j \<and> j \<le> M r"
    unfolding assms(1) by auto
  have "map (\<lambda>(r, n, j, sz, rm). (r, j)) fragment_info
          = concat (map (\<lambda>r. map (\<lambda>i. (r, i)) [1..<Suc (M r)]) rids)"
    unfolding assms(1) by (simp add: map_concat comp_def)
  also have "distinct \<dots>"
    using assms(2) by (rule distinct_region_index_pairs) simp
  finally show "distinct (map (\<lambda>(r, n, j, sz, rm). (r, j)) fragment_info)" .
qed

text \<open>
  Claim C6. Let the labelling number exactly the voxels of each region. A component of a
  nonzero identifier \<open>rid\<close> of the mask is a number \<open>i\<close> from 1 to the largest label of
  that region; its voxels are those labelled \<open>i\<close>, and its size is how often \<open>i\<close> occurs.
  Then: the cleaned mask has the shape of the input; a voxel is 0 in it if it belongs to
  a component of size below \<open>min_size\<close>, and keeps its value otherwise; for every
  component there is exactly one record, carrying its size and the flag ``size below
  \<open>min_size\<close>''; every record belongs to a component; and no two records share region id
  and component index.
\<close>

theorem remove_small_fragments_components:
  assumes labels: "\<forall>rid\<in>set m. rid \<noteq> 0 \<longrightarrow>
        map (\<lambda>l. l \<noteq> 0) (region_labels label structure m rid) = map (\<lambda>v. v = rid) m"
    and run: "remove_small_fragments label m min_size structure a = (cleaned_mask, fragment_info)"
  shows "length cleaned_mask = length m
     \<and> (\<forall>p<length m. cleaned_mask ! p
           = (if m ! p \<noteq> 0
                 \<and> count_list (region_labels label structure m (m ! p))
                      (region_labels label structure m (m ! p) ! p) < min_size
              then 0 else m ! p))
     \<and> (\<forall>rid i. rid \<in> set m \<and> rid \<noteq> 0 \<and> 1 \<le> i
                 \<and> i \<le> Max (set (region_labels label structure m rid)) \<longrightarrow>
           filter (\<lambda>(r, n, j, sz, rm). r = rid \<and> j = i) fragment_info
             = [(rid, fragment_name (id_to_name a) rid, i,
                 count_list (region_labels label structure m rid) i,
                 count_list (region_labels label structure m rid) i < min_size)])
     \<and> (\<forall>(r, n, j, sz, rm)\<in>set fragment_info.
           r \<in> set m \<and> r \<noteq> 0 \<and> 1 \<le> j \<and> j \<le> Max (set (region_labels label structure m r)))
     \<and> distinct (map (\<lambda>(r, n, j, sz, rm). (r, j)) fragment_info)"
proof -
  let ?rids = "filter (\<lambda>i. i \<noteq> 0) (np_unique m)"
  note info = remove_small_fragments_info [OF labels run]
  note records = chunk_records [OF info region_ids_distinct]
  have "length cleaned_mask = length m"
    using labels run by (rule remove_small_fragments_mask(1))
  moreover have "\<forall>p<length m. cleaned_mask ! p
           = (if m ! p \<noteq> 0
                 \<and> count_list (region_labels label structure m (m ! p))
                      (region_labels label structure m (m ! p) ! p) < min_size
              then 0 else m ! p)"
    using remove_small_fragments_mask(2) [OF labels run] by blast
  moreover have "\<forall>rid i. rid \<in> set m \<and> rid \<noteq> 0 \<and> 1 \<le> i
                 \<and> i \<le> Max (set (region_labels label structure m rid)) \<longrightarrow>
           filter (\<lambda>(r, n, j, sz, rm). r = rid \<and> j = i) fragment_info
             = [(rid, fragment_name (id_to_name a) rid, i,
                 count_list (region_labels label structure m rid) i,
                 count_list (region_labels label structure m rid) i < min_size)]"
    using records(1) unfolding region_ids_set by blast
  moreover have "\<forall>(r, n, j, sz, rm)\<in>set fragment_info.
           r \<in> set m \<and> r \<noteq> 0 \<and> 1 \<le> j \<and> j \<le> Max (set (region_labels label structure m r))"
    using records(2) unfolding region_ids_set by fast
  moreover have "distinct (map (\<lambda>(r, n, j, sz, rm). (r, j)) fragment_info)"
    by (rule records(3))
  ultimately show ?thesis by blast
qed


text \<open>The run labelling numbers exactly the voxels that are set.\<close>

lemma label_runs_from_contract:
  "(prev \<longrightarrow> 0 < n) \<Longrightarrow> map (\<lambda>l. l \<noteq> 0) (label_runs_from n prev bs) = bs"
  by (induction bs arbitrary: n prev) auto

lemma label_runs_contract: "map (\<lambda>l. l \<noteq> 0) (region_labels label_runs s m rid) = map (\<lambda>v. v = rid) m"
  unfolding label_runs_def by (rule label_runs_from_contract) simp

theorem remove_small_fragments_components_witness:
  "map (\<lambda>l. l \<noteq> 0) (region_labels label_runs () [10, 10, 10, 0, 10, 10, 12] 10)
        = map (\<lambda>v. v = 10) [10, 10, 10, 0, 10, 10, 12::nat]
   \<and> map (\<lambda>l. l \<noteq> 0) (region_labels label_runs () [10, 10, 10, 0, 10, 10, 12] 12)
        = map (\<lambda>v. v = 12) [10, 10, 10, 0, 10, 10, 12::nat]
   \<and> remove_small_fragments label_runs [10, 10, 10, 0, 10, 10, 12] 3 () example_atlas
        = ([10, 10, 10, 0, 0, 0, 0],
           [(10, ''root region'', 1, 3, False), (10, ''root region'', 2, 2, True),
            (12, ''cortex'', 1, 1, True)])
   \<and> length [10, 10, 10, 0, 0, 0, 0::nat] = length [10, 10, 10, 0, 10, 10, 12::nat]
   \<and> distinct (map (\<lambda>(r, n, j, sz, rm). (r, j))
         [(10::nat, ''root region'', 1::nat, 3::nat, False), (10, ''root region'', 2, 2, True),
          (12, ''cortex'', 1, 1, True)])"
proof -
  have l10: "map (\<lambda>l. l \<noteq> 0) (region_labels label_runs () [10, 10, 10, 0, 10, 10, 12] 10)
        = map (\<lambda>v. v = 10) [10, 10, 10, 0, 10, 10, 12::nat]"
    by (simp add: label_runs_def)
  have l12: "map (\<lambda>l. l \<noteq> 0) (region_labels label_runs () [10, 10, 10, 0, 10, 10, 12] 12)
        = map (\<lambda>v. v = 12) [10, 10, 10, 0, 10, 10, 12::nat]"
    by (simp add: label_runs_def)
  have labels: "\<forall>rid\<in>set [10, 10, 10, 0, 10, 10, 12::nat]. rid \<noteq> 0 \<longrightarrow>
      map (\<lambda>l. l \<noteq> 0) (region_labels label_runs () [10, 10, 10, 0, 10, 10, 12] rid)
        = map (\<lambda>v. v = rid) [10, 10, 10, 0, 10, 10, 12]"
    using l10 l12 by simp
  have run: "remove_small_fragments label_runs [10, 10, 10, 0, 10, 10, 12] 3 () example_atlas
        = ([10, 10, 10, 0, 0, 0, 0],
           [(10, ''root region'', 1, 3, False), (10, ''root region'', 2, 2, True),
            (12, ''cortex'', 1, 1, True)])"
    by code_simp
  from remove_small_fragments_components [OF labels run] l10 l12 run
  show ?thesis by blast
qed

section \<open>Which array a function writes to and returns\<close>

lemma store_assign_where_nth:
  "q < length st \<Longrightarrow> store_assign_where q old new st ! q = assign_where old new (st ! q)"
  by (simp add: store_assign_where_def)

lemma loop_agrees_done: "loop_agrees q st (None, st) (Inr (st ! q))"
  by (auto simp: loop_agrees_def intro: exI [of _ "st ! q"])

lemma loop_agrees_raise: "loop_agrees q st (Some e, st) (Inl e)"
  by (auto simp: loop_agrees_def intro: exI [of _ "st ! q"])

lemma loop_agrees_write:
  "loop_agrees q (st[q := m1]) on_store on_values \<Longrightarrow> loop_agrees q st on_store on_values"
  by (auto simp: loop_agrees_def)

lemma loop_agrees_Inr:
  "loop_agrees q st on_store (Inr m1) \<Longrightarrow> on_store = (None, st[q := m1])"
  by (cases on_store) (auto simp: loop_agrees_def)

lemma loop_agrees_Inl:
  "loop_agrees q st on_store (Inl e) \<Longrightarrow> \<exists>st'. on_store = (Some e, st')"
  by (cases on_store) (auto simp: loop_agrees_def)

lemma merge_areas_st_agrees:
  "q < length st \<Longrightarrow>
     loop_agrees q st (merge_areas_st a q target areas st) (merge_areas a target areas (st ! q))"
proof (induction areas arbitrary: st)
  case Nil
  then show ?case by (simp add: loop_agrees_done)
next
  case (Cons area_code rest)
  show ?case
  proof (cases "structures_getitem a area_code")
    case (Inl e)
    then show ?thesis by (simp add: loop_agrees_raise)
  next
    case (Inr s)
    let ?m1 = "assign_where (struct_id s) target (st ! q)"
    have "loop_agrees q (st[q := ?m1]) (merge_areas_st a q target rest (st[q := ?m1]))
            (merge_areas a target rest (st[q := ?m1] ! q))"
      by (rule Cons.IH) (use Cons.prems in simp)
    then have "loop_agrees q st (merge_areas_st a q target rest (st[q := ?m1]))
            (merge_areas a target rest ?m1)"
      using Cons.prems by (simp add: loop_agrees_write)
    with Inr show ?thesis by (simp add: store_assign_where_def)
  qed
qed

lemma flatten_regions_loop_st_agrees:
  "q < length st \<Longrightarrow>
     loop_agrees q st (flatten_regions_loop_st a q rs st) (flatten_regions_loop a rs (st ! q))"
proof (induction rs arbitrary: st)
  case Nil
  then show ?case by (simp add: loop_agrees_done)
next
  case (Cons region_name rest)
  show ?case
  proof (cases "structures_getitem a region_name")
    case (Inl e)
    then show ?thesis by (simp add: loop_agrees_raise)
  next
    case s: (Inr s)
    show ?thesis
    proof (cases "get_structure_descendants a region_name")
      case (Inl e)
      with s show ?thesis by (simp add: loop_agrees_raise)
    next
      case d: (Inr areas)
      note inner = merge_areas_st_agrees [OF Cons.prems, of a "struct_id s" areas]
      show ?thesis
      proof (cases "merge_areas a (struct_id s) areas (st ! q)")
        case (Inl e)
        with inner obtain st' where st': "merge_areas_st a q (struct_id s) areas st = (Some e, st')"
          by (auto dest: loop_agrees_Inl)
        with inner Inl s d show ?thesis by simp
      next
        case (Inr m1)
        with inner have st1: "merge_areas_st a q (struct_id s) areas st = (None, st[q := m1])"
          by (auto dest: loop_agrees_Inr)
        have "loop_agrees q (st[q := m1]) (flatten_regions_loop_st a q rest (st[q := m1]))
                (flatten_regions_loop a rest (st[q := m1] ! q))"
          by (rule Cons.IH) (use Cons.prems in simp)
        then have "loop_agrees q st (flatten_regions_loop_st a q rest (st[q := m1]))
                (flatten_regions_loop a rest m1)"
          using Cons.prems by (simp add: loop_agrees_write)
        with s d Inr st1 show ?thesis by simp
      qed
    qed
  qed
qed

lemma keep_areas_st_agrees:
  "q < length st \<Longrightarrow>
     loop_agrees q st (keep_areas_st a q ks st) (keep_areas a ks (st ! q))"
proof (induction ks arbitrary: st)
  case Nil
  then show ?case by (simp add: loop_agrees_done)
next
  case (Cons kept_area_code rest)
  show ?case
  proof (cases "structures_getitem a kept_area_code")
    case (Inl e)
    then show ?thesis by (simp add: loop_agrees_raise)
  next
    case k: (Inr k)
    show ?thesis
    proof (cases "get_structure_descendants a kept_area_code")
      case (Inl e)
      with k show ?thesis by (simp add: loop_agrees_raise)
    next
      case d: (Inr areas)
      note inner = merge_areas_st_agrees [OF Cons.prems, of a "struct_id k" areas]
      show ?thesis
      proof (cases "merge_areas a (struct_id k) areas (st ! q)")
        case (Inl e)
        with inner obtain st' where st': "merge_areas_st a q (struct_id k) areas st = (Some e, st')"
          by (auto dest: loop_agrees_Inl)
        with inner Inl k d show ?thesis by simp
      next
        case (Inr m1)
        with inner have st1: "merge_areas_st a q (struct_id k) areas st = (None, st[q := m1])"
          by (auto dest: loop_agrees_Inr)
        have "loop_agrees q (st[q := m1]) (keep_areas_st a q rest (st[q := m1]))
                (keep_areas a rest (st[q := m1] ! q))"
          by (rule Cons.IH) (use Cons.prems in simp)
        then have "loop_agrees q st (keep_areas_st a q rest (st[q := m1]))
                (keep_areas a rest m1)"
          using Cons.prems by (simp add: loop_agrees_write)
        with k d Inr st1 show ?thesis by simp
      qed
    qed
  qed
qed

lemma flatten_level_loop_st_agrees:
  "q < length st \<Longrightarrow>
     loop_agrees q st (flatten_level_loop_st a q level rs st)
       (flatten_level_loop a level rs (st ! q))"
proof (induction rs arbitrary: st)
  case Nil
  then show ?case by (simp add: loop_agrees_done)
next
  case (Cons region_name rest)
  show ?case
  proof (cases "structures_getitem a region_name")
    case (Inl e)
    then show ?thesis by (simp add: loop_agrees_raise)
  next
    case s: (Inr s)
    show ?thesis
    proof (cases "get_descendants_of_depth a (struct_id s) level")
      case (Inl e)
      with s show ?thesis by (simp add: loop_agrees_raise)
    next
      case d: (Inr ks)
      note inner = keep_areas_st_agrees [OF Cons.prems, of a ks]
      show ?thesis
      proof (cases "keep_areas a ks (st ! q)")
        case (Inl e)
        with inner obtain st' where st': "keep_areas_st a q ks st = (Some e, st')"
          by (auto dest: loop_agrees_Inl)
        with inner Inl s d show ?thesis by simp
      next
        case (Inr m1)
        with inner have st1: "keep_areas_st a q ks st = (None, st[q := m1])"
          by (auto dest: loop_agrees_Inr)
        have "loop_agrees q (st[q := m1]) (flatten_level_loop_st a q level rest (st[q := m1]))
                (flatten_level_loop a level rest (st[q := m1] ! q))"
          by (rule Cons.IH) (use Cons.prems in simp)
        then have "loop_agrees q st (flatten_level_loop_st a q level rest (st[q := m1]))
                (flatten_level_loop a level rest m1)"
          using Cons.prems by (simp add: loop_agrees_write)
        with s d Inr st1 show ?thesis by simp
      qed
    qed
  qed
qed

lemma exclude_loop_st_agrees:
  "q < length st \<Longrightarrow>
     loop_agrees q st (exclude_loop_st a q rs st) (exclude_loop a rs (st ! q))"
proof (induction rs arbitrary: st)
  case Nil
  then show ?case by (simp add: loop_agrees_done)
next
  case (Cons region_name rest)
  show ?case
  proof (cases "structures_getitem a region_name")
    case (Inl e)
    then show ?thesis by (simp add: loop_agrees_raise)
  next
    case (Inr s)
    let ?m1 = "assign_where (struct_id s) 0 (st ! q)"
    have "loop_agrees q (st[q := ?m1]) (exclude_loop_st a q rest (st[q := ?m1]))
            (exclude_loop a rest (st[q := ?m1] ! q))"
      by (rule Cons.IH) (use Cons.prems in simp)
    then have "loop_agrees q st (exclude_loop_st a q rest (st[q := ?m1]))
            (exclude_loop a rest ?m1)"
      using Cons.prems by (simp add: loop_agrees_write)
    with Inr show ?thesis by (simp add: store_assign_where_def)
  qed
qed


lemma copy_then_loop:
  assumes "loop_agrees (length st) (st @ [m0]) on_store on_values"
  shows "\<exists>m'. snd on_store = st @ [m']
           \<and> (case on_values of
                 Inl e \<Rightarrow> fst on_store = Some e
               | Inr m1 \<Rightarrow> fst on_store = None \<and> m' = m1)"
  using assms by (auto simp: loop_agrees_def)

lemma copied_result:
  assumes "\<exists>m'. snd on_store = st @ [m']
           \<and> (case on_values of
                 Inl e \<Rightarrow> fst on_store = Some e
               | Inr m1 \<Rightarrow> fst on_store = None \<and> m' = m1)"
    and "p < length st"
  shows "snd (case on_store of (Some e, st2) \<Rightarrow> (Inl e, st2)
                             | (None, st2) \<Rightarrow> (Inr (length st), st2)) ! p = st ! p"
    and "(case on_store of (Some e, st2) \<Rightarrow> (Inl e, st2)
                         | (None, st2) \<Rightarrow> (Inr (length st), st2)) = (Inr q, st')
         \<Longrightarrow> q = length st \<and> (\<exists>m'. on_values = Inr m' \<and> st' = st @ [m'])"
proof -
  obtain r st2 where os: "on_store = (r, st2)" by (cases on_store)
  from assms(1) obtain m' where st2': "snd on_store = st @ [m']"
    and link': "case on_values of Inl e \<Rightarrow> fst on_store = Some e
                | Inr m1 \<Rightarrow> fst on_store = None \<and> m' = m1"
    by blast
  from st2' have st2: "st2 = st @ [m']" by (simp add: os)
  from link' have link: "case on_values of Inl e \<Rightarrow> r = Some e | Inr m1 \<Rightarrow> r = None \<and> m' = m1"
    by (simp add: os split: sum.splits)
  show "snd (case on_store of (Some e, st2) \<Rightarrow> (Inl e, st2)
                             | (None, st2) \<Rightarrow> (Inr (length st), st2)) ! p = st ! p"
    using assms(2) by (cases r) (simp_all add: os st2 nth_append)
  show "q = length st \<and> (\<exists>m'. on_values = Inr m' \<and> st' = st @ [m'])"
    if "(case on_store of (Some e, st2) \<Rightarrow> (Inl e, st2)
                         | (None, st2) \<Rightarrow> (Inr (length st), st2)) = (Inr q, st')"
    using that link by (cases r; cases on_values) (auto simp: os st2)
qed

lemma flatten_regions_st_frame:
  assumes "p < length st"
  shows "snd (flatten_regions_st st p a rs) ! p = st ! p"
    and "flatten_regions_st st p a rs = (Inr q, st')
           \<Longrightarrow> q = length st \<and> (\<exists>m'. flatten_regions (st ! p) a rs = Inr m' \<and> st' = st @ [m'])"
proof -
  have "loop_agrees (length st) (st @ [st ! p])
          (flatten_regions_loop_st a (length st) rs (st @ [st ! p]))
          (flatten_regions_loop a rs ((st @ [st ! p]) ! length st))"
    by (rule flatten_regions_loop_st_agrees) simp
  then have "loop_agrees (length st) (st @ [st ! p])
          (flatten_regions_loop_st a (length st) rs (st @ [st ! p]))
          (flatten_regions (st ! p) a rs)"
    by (simp add: flatten_regions_def)
  note link = copy_then_loop [OF this]
  show "snd (flatten_regions_st st p a rs) ! p = st ! p"
    using copied_result(1) [OF link assms] by (simp add: flatten_regions_st_def np_copy_def)
  show "q = length st \<and> (\<exists>m'. flatten_regions (st ! p) a rs = Inr m' \<and> st' = st @ [m'])"
    if "flatten_regions_st st p a rs = (Inr q, st')"
    using copied_result(2) [OF link assms, of q st'] that
    by (simp add: flatten_regions_st_def np_copy_def)
qed

lemma exclude_regions_st_frame:
  assumes "p < length st"
  shows "snd (exclude_regions_st st p a rs) ! p = st ! p"
    and "exclude_regions_st st p a rs = (Inr q, st')
           \<Longrightarrow> q = length st \<and> (\<exists>m'. exclude_regions (st ! p) a rs = Inr m' \<and> st' = st @ [m'])"
proof -
  have "loop_agrees (length st) (st @ [st ! p])
          (exclude_loop_st a (length st) rs (st @ [st ! p]))
          (exclude_loop a rs ((st @ [st ! p]) ! length st))"
    by (rule exclude_loop_st_agrees) simp
  then have "loop_agrees (length st) (st @ [st ! p])
          (exclude_loop_st a (length st) rs (st @ [st ! p]))
          (exclude_regions (st ! p) a rs)"
    by (simp add: exclude_regions_def)
  note link = copy_then_loop [OF this]
  show "snd (exclude_regions_st st p a rs) ! p = st ! p"
    using copied_result(1) [OF link assms] by (simp add: exclude_regions_st_def np_copy_def)
  show "q = length st \<and> (\<exists>m'. exclude_regions (st ! p) a rs = Inr m' \<and> st' = st @ [m'])"
    if "exclude_regions_st st p a rs = (Inr q, st')"
    using copied_result(2) [OF link assms, of q st'] that
    by (simp add: exclude_regions_st_def np_copy_def)
qed

lemma flatten_descendants_of_level_st_frame:
  assumes "p < length st"
  shows "snd (flatten_descendants_of_level_st st p a rs level) ! p = st ! p"
    and "flatten_descendants_of_level_st st p a rs level = (Inr q, st')
           \<Longrightarrow> q = length st
               \<and> (\<exists>m'. flatten_descendants_of_level (st ! p) a rs level = Inr m' \<and> st' = st @ [m'])"
proof -
  have "loop_agrees (length st) (st @ [st ! p])
          (flatten_level_loop_st a (length st) level rs (st @ [st ! p]))
          (flatten_level_loop a level rs ((st @ [st ! p]) ! length st))"
    by (rule flatten_level_loop_st_agrees) simp
  then have "loop_agrees (length st) (st @ [st ! p])
          (flatten_level_loop_st a (length st) level rs (st @ [st ! p]))
          (flatten_level_loop a level rs (st ! p))"
    by simp
  note link = copy_then_loop [OF this]
  show "snd (flatten_descendants_of_level_st st p a rs level) ! p = st ! p"
  proof (cases "level < 1")
    case True
    then show ?thesis by (simp add: flatten_descendants_of_level_st_def)
  next
    case False
    with copied_result(1) [OF link assms] show ?thesis
      by (simp add: flatten_descendants_of_level_st_def np_copy_def)
  qed
  show "q = length st
          \<and> (\<exists>m'. flatten_descendants_of_level (st ! p) a rs level = Inr m' \<and> st' = st @ [m'])"
    if run: "flatten_descendants_of_level_st st p a rs level = (Inr q, st')"
  proof (cases "level < 1")
    case True
    with run show ?thesis by (simp add: flatten_descendants_of_level_st_def)
  next
    case False
    with copied_result(2) [OF link assms, of q st'] run show ?thesis
      by (simp add: flatten_descendants_of_level_st_def flatten_descendants_of_level_def
          np_copy_def)
  qed
qed


lemma components_loop_st_eq:
  "q < length st \<Longrightarrow>
     components_loop_st q rid rname min_size labeled es (st, info)
       = (st[q := fst (components_loop rid rname min_size labeled es (st ! q, info))],
          snd (components_loop rid rname min_size labeled es (st ! q, info)))"
proof (induction es arbitrary: st info)
  case Nil
  then show ?case by simp
next
  case (Cons e es)
  obtain i sz where e: "e = (i, sz)" by (cases e)
  show ?case
  proof (cases "sz < min_size")
    case True
    let ?c1 = "assign_where_labeled labeled i 0 (st ! q)"
    have "q < length (st[q := ?c1])" using Cons.prems by simp
    from Cons.IH [OF this, of "info @ [(rid, rname, i, sz, True)]"] True Cons.prems
    show ?thesis by (simp add: e)
  next
    case False
    from Cons.IH [OF Cons.prems, of "info @ [(rid, rname, i, sz, False)]"] False
    show ?thesis by (simp add: e)
  qed
qed

lemma fragments_loop_st_eq:
  "p < length st \<Longrightarrow> q < length st \<Longrightarrow> p \<noteq> q \<Longrightarrow>
     fragments_loop_st label structure p q min_size names rids (st, info)
       = (st[q := fst (fragments_loop label structure (st ! p) min_size names rids (st ! q, info))],
          snd (fragments_loop label structure (st ! p) min_size names rids (st ! q, info)))"
proof (induction rids arbitrary: st info)
  case Nil
  then show ?case by simp
next
  case (Cons rid rest)
  let ?L = "region_labels label structure (st ! p) rid"
  let ?X = "components_loop rid (fragment_name names rid) min_size ?L
              (enumerate_from 1 (drop 1 (bincount ?L))) (st ! q, info)"
  have step: "components_loop_st q rid (fragment_name names rid) min_size ?L
              (enumerate_from 1 (drop 1 (bincount ?L))) (st, info)
            = (st[q := fst ?X], snd ?X)"
    using Cons.prems(2) by (rule components_loop_st_eq)
  have "fragments_loop_st label structure p q min_size names rest (st[q := fst ?X], snd ?X)
      = ((st[q := fst ?X])[q := fst (fragments_loop label structure (st[q := fst ?X] ! p)
                                        min_size names rest (st[q := fst ?X] ! q, snd ?X))],
         snd (fragments_loop label structure (st[q := fst ?X] ! p)
                                        min_size names rest (st[q := fst ?X] ! q, snd ?X)))"
    by (rule Cons.IH) (use Cons.prems in simp_all)
  with Cons.prems step show ?case by (simp add: Let_def)
qed

lemma remove_small_fragments_st_eq:
  assumes "p < length st"
  shows "remove_small_fragments_st label st p min_size structure a
     = ((length st, snd (remove_small_fragments label (st ! p) min_size structure a)),
        st @ [fst (remove_small_fragments label (st ! p) min_size structure a)])"
proof -
  let ?st1 = "st @ [st ! p]"
  let ?rids = "filter (\<lambda>i. i \<noteq> 0) (np_unique (st ! p))"
  have "fragments_loop_st label structure p (length st) min_size (id_to_name a) ?rids (?st1, [])
      = (?st1[length st := fst (fragments_loop label structure (?st1 ! p) min_size (id_to_name a)
                                  ?rids (?st1 ! length st, []))],
         snd (fragments_loop label structure (?st1 ! p) min_size (id_to_name a)
                                  ?rids (?st1 ! length st, [])))"
    by (rule fragments_loop_st_eq) (use assms in simp_all)
  with assms show ?thesis
    by (simp add: remove_small_fragments_st_def remove_small_fragments_def np_copy_def
        Let_def nth_append)
qed

lemma remap_loop_st_link:
  "p < length st \<Longrightarrow>
     \<exists>m'. snd (remap_loop_st p ls av (st, r, n)) = st[p := m']
        \<and> (case remap_loop ls av (st ! p, r, n) of
              Inl e \<Rightarrow> fst (remap_loop_st p ls av (st, r, n)) = Inl e
            | Inr (m1, r1, n1) \<Rightarrow>
                fst (remap_loop_st p ls av (st, r, n)) = Inr (r1, n1) \<and> m' = m1)"
proof (induction ls arbitrary: av st r n)
  case Nil
  then show ?case by (auto intro: exI [of _ "st ! p"])
next
  case (Cons old_id rest)
  show ?case
  proof (cases av)
    case Nil
    then show ?thesis by (auto intro: exI [of _ "st ! p"])
  next
    case (Cons new_id av')
    let ?m1 = "assign_where old_id new_id (st ! p)"
    have "p < length (st[p := ?m1])" using Cons.prems by simp
    from Cons.IH [OF this, of av' "AList.update old_id new_id r" "AList.update new_id old_id n"]
    obtain m' where
      "snd (remap_loop_st p rest av' (st[p := ?m1], AList.update old_id new_id r,
              AList.update new_id old_id n)) = st[p := ?m1, p := m']"
      and "case remap_loop rest av' (st[p := ?m1] ! p, AList.update old_id new_id r,
              AList.update new_id old_id n) of
              Inl e \<Rightarrow> fst (remap_loop_st p rest av' (st[p := ?m1], AList.update old_id new_id r,
                              AList.update new_id old_id n)) = Inl e
            | Inr (m1, r1, n1) \<Rightarrow>
                fst (remap_loop_st p rest av' (st[p := ?m1], AList.update old_id new_id r,
                              AList.update new_id old_id n)) = Inr (r1, n1) \<and> m' = m1"
      by blast
    with Cons.prems Cons show ?thesis
      by (auto simp: store_assign_where_def split: sum.splits intro!: exI [of _ m'])
  qed
qed

lemma remap_large_values_st_shared:
  assumes "p < length st"
    and "remap_large_values_st st p max_value = (Inr (q, id_remap, new_id_to_old_id), st')"
  shows "q = p \<and> length st' = length st
       \<and> (\<exists>m'. remap_large_values (st ! p) max_value = Inr (m', id_remap, new_id_to_old_id)
              \<and> st' = st[p := m'])"
proof -
  let ?all = "np_unique (st ! p)"
  let ?ls = "filter (\<lambda>i. i > max_value) ?all"
  let ?av = "filter (\<lambda>i. i \<notin> set (filter (\<lambda>i. i \<le> max_value) ?all)) [1..<max_value + 1]"
  from remap_loop_st_link [OF assms(1), of ?ls ?av "[]" "[]"]
  obtain m' where store: "snd (remap_loop_st p ?ls ?av (st, [], [])) = st[p := m']"
    and link: "case remap_loop ?ls ?av (st ! p, [], []) of
              Inl e \<Rightarrow> fst (remap_loop_st p ?ls ?av (st, [], [])) = Inl e
            | Inr (m1, r1, n1) \<Rightarrow>
                fst (remap_loop_st p ?ls ?av (st, [], [])) = Inr (r1, n1) \<and> m' = m1"
    by blast
  obtain res st2 where R: "remap_loop_st p ?ls ?av (st, [], []) = (res, st2)"
    by (cases "remap_loop_st p ?ls ?av (st, [], [])")
  from assms(2) R have res: "res = Inr (id_remap, new_id_to_old_id)" and q: "q = p"
    and st': "st' = st2"
    by (auto simp: remap_large_values_st_def Let_def split: sum.splits)
  from store R st' have st'_eq: "st' = st[p := m']" by simp
  from link R res have "remap_loop ?ls ?av (st ! p, [], []) = Inr (m', id_remap, new_id_to_old_id)"
    by (auto split: sum.splits)
  then have "remap_large_values (st ! p) max_value = Inr (m', id_remap, new_id_to_old_id)"
    by (simp add: remap_large_values_def Let_def)
  with q st'_eq show ?thesis by auto
qed

lemma copied_returns:
  assumes "loop_agrees (length st) (st @ [m0]) on_store on_values"
  shows "on_values = Inr m' \<Longrightarrow>
           (case on_store of (Some e, st2) \<Rightarrow> (Inl e, st2)
                           | (None, st2) \<Rightarrow> (Inr (length st), st2)) = (Inr (length st), st @ [m'])"
    and "on_values = Inl e \<Longrightarrow>
           fst (case on_store of (Some e, st2) \<Rightarrow> (Inl e, st2)
                               | (None, st2) \<Rightarrow> (Inr (length st), st2)) = Inl e"
proof -
  show "(case on_store of (Some e, st2) \<Rightarrow> (Inl e, st2)
                        | (None, st2) \<Rightarrow> (Inr (length st), st2)) = (Inr (length st), st @ [m'])"
    if "on_values = Inr m'"
  proof -
    from assms that have "on_store = (None, (st @ [m0])[length st := m'])"
      by (auto dest: loop_agrees_Inr)
    then show ?thesis by simp
  qed
  show "fst (case on_store of (Some e, st2) \<Rightarrow> (Inl e, st2)
                            | (None, st2) \<Rightarrow> (Inr (length st), st2)) = Inl e"
    if "on_values = Inl e"
  proof -
    from assms that obtain st' where "on_store = (Some e, st')"
      by (auto dest: loop_agrees_Inl)
    then show ?thesis by simp
  qed
qed

lemma flatten_regions_st_returns:
  shows "flatten_regions (st ! p) a rs = Inr m'
           \<Longrightarrow> flatten_regions_st st p a rs = (Inr (length st), st @ [m'])"
    and "flatten_regions (st ! p) a rs = Inl e \<Longrightarrow> fst (flatten_regions_st st p a rs) = Inl e"
proof -
  have "loop_agrees (length st) (st @ [st ! p])
          (flatten_regions_loop_st a (length st) rs (st @ [st ! p]))
          (flatten_regions_loop a rs ((st @ [st ! p]) ! length st))"
    by (rule flatten_regions_loop_st_agrees) simp
  then have link: "loop_agrees (length st) (st @ [st ! p])
          (flatten_regions_loop_st a (length st) rs (st @ [st ! p]))
          (flatten_regions (st ! p) a rs)"
    by (simp add: flatten_regions_def)
  show "flatten_regions_st st p a rs = (Inr (length st), st @ [m'])"
    if "flatten_regions (st ! p) a rs = Inr m'"
    using copied_returns(1) [OF link that] by (simp add: flatten_regions_st_def np_copy_def)
  show "fst (flatten_regions_st st p a rs) = Inl e"
    if "flatten_regions (st ! p) a rs = Inl e"
    using copied_returns(2) [OF link that] by (simp add: flatten_regions_st_def np_copy_def)
qed

lemma exclude_regions_st_returns:
  shows "exclude_regions (st ! p) a rs = Inr m'
           \<Longrightarrow> exclude_regions_st st p a rs = (Inr (length st), st @ [m'])"
    and "exclude_regions (st ! p) a rs = Inl e \<Longrightarrow> fst (exclude_regions_st st p a rs) = Inl e"
proof -
  have "loop_agrees (length st) (st @ [st ! p])
          (exclude_loop_st a (length st) rs (st @ [st ! p]))
          (exclude_loop a rs ((st @ [st ! p]) ! length st))"
    by (rule exclude_loop_st_agrees) simp
  then have link: "loop_agrees (length st) (st @ [st ! p])
          (exclude_loop_st a (length st) rs (st @ [st ! p]))
          (exclude_regions (st ! p) a rs)"
    by (simp add: exclude_regions_def)
  show "exclude_regions_st st p a rs = (Inr (length st), st @ [m'])"
    if "exclude_regions (st ! p) a rs = Inr m'"
    using copied_returns(1) [OF link that] by (simp add: exclude_regions_st_def np_copy_def)
  show "fst (exclude_regions_st st p a rs) = Inl e"
    if "exclude_regions (st ! p) a rs = Inl e"
    using copied_returns(2) [OF link that] by (simp add: exclude_regions_st_def np_copy_def)
qed

lemma flatten_descendants_of_level_st_returns:
  shows "flatten_descendants_of_level (st ! p) a rs level = Inr m'
           \<Longrightarrow> flatten_descendants_of_level_st st p a rs level = (Inr (length st), st @ [m'])"
    and "flatten_descendants_of_level (st ! p) a rs level = Inl e
           \<Longrightarrow> fst (flatten_descendants_of_level_st st p a rs level) = Inl e"
proof -
  have "loop_agrees (length st) (st @ [st ! p])
          (flatten_level_loop_st a (length st) level rs (st @ [st ! p]))
          (flatten_level_loop a level rs ((st @ [st ! p]) ! length st))"
    by (rule flatten_level_loop_st_agrees) simp
  then have link: "loop_agrees (length st) (st @ [st ! p])
          (flatten_level_loop_st a (length st) level rs (st @ [st ! p]))
          (flatten_level_loop a level rs (st ! p))"
    by simp
  show "flatten_descendants_of_level_st st p a rs level = (Inr (length st), st @ [m'])"
    if run: "flatten_descendants_of_level (st ! p) a rs level = Inr m'"
  proof (cases "level < 1")
    case True
    with run show ?thesis by (simp add: flatten_descendants_of_level_def)
  next
    case False
    with run have "flatten_level_loop a level rs (st ! p) = Inr m'"
      by (simp add: flatten_descendants_of_level_def)
    from copied_returns(1) [OF link this] False show ?thesis
      by (simp add: flatten_descendants_of_level_st_def np_copy_def)
  qed
  show "fst (flatten_descendants_of_level_st st p a rs level) = Inl e"
    if run: "flatten_descendants_of_level (st ! p) a rs level = Inl e"
  proof (cases "level < 1")
    case True
    with run show ?thesis
      by (simp add: flatten_descendants_of_level_def flatten_descendants_of_level_st_def)
  next
    case False
    with run have "flatten_level_loop a level rs (st ! p) = Inl e"
      by (simp add: flatten_descendants_of_level_def)
    from copied_returns(2) [OF link this] False show ?thesis
      by (simp add: flatten_descendants_of_level_st_def np_copy_def)
  qed
qed

lemma remap_large_values_st_returns:
  assumes "p < length st"
  shows "remap_large_values (st ! p) max_value = Inr (m', id_remap, new_id_to_old_id)
           \<Longrightarrow> remap_large_values_st st p max_value
                 = (Inr (p, id_remap, new_id_to_old_id), st[p := m'])"
    and "remap_large_values (st ! p) max_value = Inl e
           \<Longrightarrow> fst (remap_large_values_st st p max_value) = Inl e"
proof -
  let ?all = "np_unique (st ! p)"
  let ?ls = "filter (\<lambda>i. i > max_value) ?all"
  let ?av = "filter (\<lambda>i. i \<notin> set (filter (\<lambda>i. i \<le> max_value) ?all)) [1..<max_value + 1]"
  from remap_loop_st_link [OF assms, of ?ls ?av "[]" "[]"]
  obtain m2 where store: "snd (remap_loop_st p ?ls ?av (st, [], [])) = st[p := m2]"
    and link: "case remap_loop ?ls ?av (st ! p, [], []) of
              Inl e \<Rightarrow> fst (remap_loop_st p ?ls ?av (st, [], [])) = Inl e
            | Inr (m1, r1, n1) \<Rightarrow>
                fst (remap_loop_st p ?ls ?av (st, [], [])) = Inr (r1, n1) \<and> m2 = m1"
    by blast
  obtain res st2 where R: "remap_loop_st p ?ls ?av (st, [], []) = (res, st2)"
    by (cases "remap_loop_st p ?ls ?av (st, [], [])")
  from store R have st2: "st2 = st[p := m2]" by simp
  show "remap_large_values_st st p max_value = (Inr (p, id_remap, new_id_to_old_id), st[p := m'])"
    if "remap_large_values (st ! p) max_value = Inr (m', id_remap, new_id_to_old_id)"
  proof -
    from that have "remap_loop ?ls ?av (st ! p, [], []) = Inr (m', id_remap, new_id_to_old_id)"
      by (simp add: remap_large_values_def Let_def)
    with link R have "res = Inr (id_remap, new_id_to_old_id)" and "m2 = m'" by simp_all
    with R st2 show ?thesis by (simp add: remap_large_values_st_def Let_def)
  qed
  show "fst (remap_large_values_st st p max_value) = Inl e"
    if "remap_large_values (st ! p) max_value = Inl e"
  proof -
    from that have "remap_loop ?ls ?av (st ! p, [], []) = Inl e"
      by (simp add: remap_large_values_def Let_def)
    with link R have "res = Inl e" by simp
    with R show ?thesis by (simp add: remap_large_values_st_def Let_def)
  qed
qed

text \<open>
  Claim C10. Let \<open>p\<close> be the address of the mask argument, and compare each function on
  the store with the function on values applied to the array at \<open>p\<close>.
  \<open>flatten_regions\<close>, \<open>flatten_descendants_of_level\<close> and \<open>exclude_regions\<close> leave the
  array at \<open>p\<close> as it was, whether they return or raise. They return exactly when the
  function on values does: then the address returned is the first one the store did not
  have, and the store is the old one extended by one array, which holds the mask computed
  on values; they raise what the function on values raises; and an address they return is
  never one of the old store. \<open>remove_small_fragments\<close> always returns: the new address,
  the fragment records computed on values, and the old store extended by the cleaned mask.
  \<open>remap_large_values\<close> returns exactly when the function on values does: then it returns
  the address \<open>p\<close> itself with the two tables, allocates nothing, and has replaced the
  array at \<open>p\<close> by the remapped mask; it raises what the function on values raises.
\<close>

theorem mask_arrays_fresh_or_shared:
  assumes "p < length st"
  shows "snd (flatten_regions_st st p a rs) ! p = st ! p
     \<and> (\<forall>m'. flatten_regions (st ! p) a rs = Inr m' \<longrightarrow>
           flatten_regions_st st p a rs = (Inr (length st), st @ [m']))
     \<and> (\<forall>e. flatten_regions (st ! p) a rs = Inl e \<longrightarrow>
           fst (flatten_regions_st st p a rs) = Inl e)
     \<and> (\<forall>q st'. flatten_regions_st st p a rs = (Inr q, st') \<longrightarrow>
           q = length st \<and> (\<exists>m'. flatten_regions (st ! p) a rs = Inr m' \<and> st' = st @ [m']))
     \<and> snd (flatten_descendants_of_level_st st p a rs level) ! p = st ! p
     \<and> (\<forall>m'. flatten_descendants_of_level (st ! p) a rs level = Inr m' \<longrightarrow>
           flatten_descendants_of_level_st st p a rs level = (Inr (length st), st @ [m']))
     \<and> (\<forall>e. flatten_descendants_of_level (st ! p) a rs level = Inl e \<longrightarrow>
           fst (flatten_descendants_of_level_st st p a rs level) = Inl e)
     \<and> (\<forall>q st'. flatten_descendants_of_level_st st p a rs level = (Inr q, st') \<longrightarrow>
           q = length st \<and> (\<exists>m'. flatten_descendants_of_level (st ! p) a rs level = Inr m' \<and> st' = st @ [m']))
     \<and> snd (exclude_regions_st st p a rs) ! p = st ! p
     \<and> (\<forall>m'. exclude_regions (st ! p) a rs = Inr m' \<longrightarrow>
           exclude_regions_st st p a rs = (Inr (length st), st @ [m']))
     \<and> (\<forall>e. exclude_regions (st ! p) a rs = Inl e \<longrightarrow>
           fst (exclude_regions_st st p a rs) = Inl e)
     \<and> (\<forall>q st'. exclude_regions_st st p a rs = (Inr q, st') \<longrightarrow>
           q = length st \<and> (\<exists>m'. exclude_regions (st ! p) a rs = Inr m' \<and> st' = st @ [m']))
     \<and> remove_small_fragments_st label st p min_size structure a
         = ((length st, snd (remove_small_fragments label (st ! p) min_size structure a)),
            st @ [fst (remove_small_fragments label (st ! p) min_size structure a)])
     \<and> snd (remove_small_fragments_st label st p min_size structure a) ! p = st ! p
     \<and> (\<forall>q info st'. remove_small_fragments_st label st p min_size structure a = ((q, info), st') \<longrightarrow>
           q = length st
           \<and> (\<exists>cleaned. remove_small_fragments label (st ! p) min_size structure a = (cleaned, info)
                  \<and> st' = st @ [cleaned]))
     \<and> (\<forall>m' id_remap new_id_to_old_id.
           remap_large_values (st ! p) max_value = Inr (m', id_remap, new_id_to_old_id) \<longrightarrow>
           remap_large_values_st st p max_value
             = (Inr (p, id_remap, new_id_to_old_id), st[p := m']))
     \<and> (\<forall>e. remap_large_values (st ! p) max_value = Inl e \<longrightarrow>
           fst (remap_large_values_st st p max_value) = Inl e)
     \<and> (\<forall>q id_remap new_id_to_old_id st'.
           remap_large_values_st st p max_value = (Inr (q, id_remap, new_id_to_old_id), st') \<longrightarrow>
           q = p \<and> length st' = length st
           \<and> (\<exists>m'. remap_large_values (st ! p) max_value = Inr (m', id_remap, new_id_to_old_id)
                  \<and> st' = st[p := m']))"
proof -
  have fragments_result: "q = length st
           \<and> (\<exists>cleaned. remove_small_fragments label (st ! p) min_size structure a = (cleaned, info)
                  \<and> st' = st @ [cleaned])"
    if "remove_small_fragments_st label st p min_size structure a = ((q, info), st')"
    for q info st'
    using that unfolding remove_small_fragments_st_eq [OF assms]
    by (cases "remove_small_fragments label (st ! p) min_size structure a") auto
  have flat_input: "snd (flatten_regions_st st p a rs) ! p = st ! p"
    using assms by (rule flatten_regions_st_frame(1))
  have flat_returns: "(\<forall>m'. flatten_regions (st ! p) a rs = Inr m' \<longrightarrow>
           flatten_regions_st st p a rs = (Inr (length st), st @ [m']))"
    by (intro allI impI) (rule flatten_regions_st_returns(1))
  have flat_raises: "(\<forall>e. flatten_regions (st ! p) a rs = Inl e \<longrightarrow>
           fst (flatten_regions_st st p a rs) = Inl e)"
    by (intro allI impI) (rule flatten_regions_st_returns(2))
  have flat_fresh: "(\<forall>q st'. flatten_regions_st st p a rs = (Inr q, st') \<longrightarrow>
           q = length st \<and> (\<exists>m'. flatten_regions (st ! p) a rs = Inr m' \<and> st' = st @ [m']))"
    by (intro allI impI) (rule flatten_regions_st_frame(2) [OF assms])
  have level_input: "snd (flatten_descendants_of_level_st st p a rs level) ! p = st ! p"
    using assms by (rule flatten_descendants_of_level_st_frame(1))
  have level_returns: "(\<forall>m'. flatten_descendants_of_level (st ! p) a rs level = Inr m' \<longrightarrow>
           flatten_descendants_of_level_st st p a rs level = (Inr (length st), st @ [m']))"
    by (intro allI impI) (rule flatten_descendants_of_level_st_returns(1))
  have level_raises: "(\<forall>e. flatten_descendants_of_level (st ! p) a rs level = Inl e \<longrightarrow>
           fst (flatten_descendants_of_level_st st p a rs level) = Inl e)"
    by (intro allI impI) (rule flatten_descendants_of_level_st_returns(2))
  have level_fresh: "(\<forall>q st'. flatten_descendants_of_level_st st p a rs level = (Inr q, st') \<longrightarrow>
           q = length st \<and> (\<exists>m'. flatten_descendants_of_level (st ! p) a rs level = Inr m' \<and> st' = st @ [m']))"
    by (intro allI impI) (rule flatten_descendants_of_level_st_frame(2) [OF assms])
  have excl_input: "snd (exclude_regions_st st p a rs) ! p = st ! p"
    using assms by (rule exclude_regions_st_frame(1))
  have excl_returns: "(\<forall>m'. exclude_regions (st ! p) a rs = Inr m' \<longrightarrow>
           exclude_regions_st st p a rs = (Inr (length st), st @ [m']))"
    by (intro allI impI) (rule exclude_regions_st_returns(1))
  have excl_raises: "(\<forall>e. exclude_regions (st ! p) a rs = Inl e \<longrightarrow>
           fst (exclude_regions_st st p a rs) = Inl e)"
    by (intro allI impI) (rule exclude_regions_st_returns(2))
  have excl_fresh: "(\<forall>q st'. exclude_regions_st st p a rs = (Inr q, st') \<longrightarrow>
           q = length st \<and> (\<exists>m'. exclude_regions (st ! p) a rs = Inr m' \<and> st' = st @ [m']))"
    by (intro allI impI) (rule exclude_regions_st_frame(2) [OF assms])
  have frag_returns: "remove_small_fragments_st label st p min_size structure a
         = ((length st, snd (remove_small_fragments label (st ! p) min_size structure a)),
            st @ [fst (remove_small_fragments label (st ! p) min_size structure a)])"
    using assms by (rule remove_small_fragments_st_eq)
  have frag_input: "snd (remove_small_fragments_st label st p min_size structure a) ! p = st ! p"
    using assms by (simp add: remove_small_fragments_st_eq nth_append)
  have frag_fresh: "(\<forall>q info st'. remove_small_fragments_st label st p min_size structure a = ((q, info), st') \<longrightarrow>
           q = length st
           \<and> (\<exists>cleaned. remove_small_fragments label (st ! p) min_size structure a = (cleaned, info)
                  \<and> st' = st @ [cleaned]))"
    by (intro allI impI) (rule fragments_result)
  have remap_returns: "(\<forall>m' id_remap new_id_to_old_id.
           remap_large_values (st ! p) max_value = Inr (m', id_remap, new_id_to_old_id) \<longrightarrow>
           remap_large_values_st st p max_value
             = (Inr (p, id_remap, new_id_to_old_id), st[p := m']))"
    by (intro allI impI) (rule remap_large_values_st_returns(1) [OF assms])
  have remap_raises: "(\<forall>e. remap_large_values (st ! p) max_value = Inl e \<longrightarrow>
           fst (remap_large_values_st st p max_value) = Inl e)"
    by (intro allI impI) (rule remap_large_values_st_returns(2) [OF assms])
  have remap_shared: "(\<forall>q id_remap new_id_to_old_id st'.
           remap_large_values_st st p max_value = (Inr (q, id_remap, new_id_to_old_id), st') \<longrightarrow>
           q = p \<and> length st' = length st
           \<and> (\<exists>m'. remap_large_values (st ! p) max_value = Inr (m', id_remap, new_id_to_old_id)
                  \<and> st' = st[p := m']))"
    by (intro allI impI) (rule remap_large_values_st_shared [OF assms])
  from flat_input flat_returns flat_raises flat_fresh level_input level_returns level_raises level_fresh excl_input excl_returns excl_raises excl_fresh frag_returns frag_input frag_fresh remap_returns remap_raises remap_shared show ?thesis
    by (intro conjI)
qed

theorem mask_arrays_fresh_or_shared_witness:
  "(0::nat) < length [[10, 11, 12, 12, 0::nat]]
   \<and> flatten_regions [10, 11, 12, 12, 0] example_atlas [''root''] = Inr [10, 10, 10, 10, 0]
   \<and> flatten_regions_st [[10, 11, 12, 12, 0]] 0 example_atlas [''root'']
        = (Inr 1, [[10, 11, 12, 12, 0], [10, 10, 10, 10, 0]])
   \<and> flatten_descendants_of_level [10, 11, 12, 12, 0] example_atlas [''root''] 1 = Inr [10, 11, 11, 11, 0]
   \<and> flatten_descendants_of_level_st [[10, 11, 12, 12, 0]] 0 example_atlas [''root''] 1
        = (Inr 1, [[10, 11, 12, 12, 0], [10, 11, 11, 11, 0]])
   \<and> exclude_regions [10, 11, 12, 12, 0] example_atlas [''root''] = Inr [0, 11, 12, 12, 0]
   \<and> exclude_regions_st [[10, 11, 12, 12, 0]] 0 example_atlas [''root'']
        = (Inr 1, [[10, 11, 12, 12, 0], [0, 11, 12, 12, 0]])
   \<and> remove_small_fragments label_runs [10, 11, 12, 12, 0] 2 () example_atlas
        = ([0, 0, 12, 12, 0],
          [(10, ''root region'', 1, 1, True), (11, ''grey matter'', 1, 1, True),
           (12, ''cortex'', 1, 2, False)])
   \<and> remove_small_fragments_st label_runs [[10, 11, 12, 12, 0]] 0 2 () example_atlas
        = ((1, [(10, ''root region'', 1, 1, True), (11, ''grey matter'', 1, 1, True),
           (12, ''cortex'', 1, 2, False)]),
           [[10, 11, 12, 12, 0], [0, 0, 12, 12, 0]])
   \<and> remap_large_values [10, 11, 12, 12, 0] 11 = Inr ([10, 11, 1, 1, 0], [(12, 1)], [(1, 12)])
   \<and> remap_large_values_st [[10, 11, 12, 12, 0]] 0 11
        = (Inr (0, [(12, 1)], [(1, 12)]), [[10, 11, 1, 1, 0]])"
proof -
  have valid: "(0::nat) < length [[10, 11, 12, 12, 0::nat]]" by simp
  have input: "[[10, 11, 12, 12, 0]] ! 0 = [10, 11, 12, 12, 0]" by simp
  note inst = mask_arrays_fresh_or_shared
      [OF valid, of example_atlas "[''root'']" 1 label_runs 2 "()" 11, unfolded input]
  have flat_value: "flatten_regions [10, 11, 12, 12, 0] example_atlas [''root''] = Inr [10, 10, 10, 10, 0]"
    by code_simp
  note flat_store = inst [THEN conjunct2, THEN conjunct1,
      rule_format, OF flat_value]
  have level_value: "flatten_descendants_of_level [10, 11, 12, 12, 0] example_atlas [''root''] 1 = Inr [10, 11, 11, 11, 0]"
    by code_simp
  note level_store = inst [THEN conjunct2, THEN conjunct2, THEN conjunct2, THEN conjunct2, THEN conjunct2,
      THEN conjunct1,
      rule_format, OF level_value]
  have excl_value: "exclude_regions [10, 11, 12, 12, 0] example_atlas [''root''] = Inr [0, 11, 12, 12, 0]"
    by code_simp
  note excl_store = inst [THEN conjunct2, THEN conjunct2, THEN conjunct2, THEN conjunct2, THEN conjunct2,
      THEN conjunct2, THEN conjunct2, THEN conjunct2, THEN conjunct2, THEN conjunct1,
      rule_format, OF excl_value]
  have remap_value: "remap_large_values [10, 11, 12, 12, 0] 11 = Inr ([10, 11, 1, 1, 0], [(12, 1)], [(1, 12)])"
    by code_simp
  note remap_store = inst [THEN conjunct2, THEN conjunct2, THEN conjunct2, THEN conjunct2, THEN conjunct2,
      THEN conjunct2, THEN conjunct2, THEN conjunct2, THEN conjunct2, THEN conjunct2,
      THEN conjunct2, THEN conjunct2, THEN conjunct2, THEN conjunct2, THEN conjunct2,
      THEN conjunct1,
      rule_format, OF remap_value]
  have frag_value: "remove_small_fragments label_runs [10, 11, 12, 12, 0] 2 () example_atlas
        = ([0, 0, 12, 12, 0],
          [(10, ''root region'', 1, 1, True), (11, ''grey matter'', 1, 1, True),
           (12, ''cortex'', 1, 2, False)])"
    by code_simp
  note frag_eq = inst [THEN conjunct2, THEN conjunct2, THEN conjunct2, THEN conjunct2, THEN conjunct2,
      THEN conjunct2, THEN conjunct2, THEN conjunct2, THEN conjunct2, THEN conjunct2,
      THEN conjunct2, THEN conjunct2, THEN conjunct1]
  have frag_store: "remove_small_fragments_st label_runs [[10, 11, 12, 12, 0]] 0 2 () example_atlas
        = ((1, [(10, ''root region'', 1, 1, True), (11, ''grey matter'', 1, 1, True),
           (12, ''cortex'', 1, 2, False)]),
           [[10, 11, 12, 12, 0], [0, 0, 12, 12, 0]])"
    unfolding frag_eq frag_value by simp
  from valid flat_value flat_store level_value level_store excl_value excl_store frag_value frag_store remap_value remap_store show ?thesis
    by (intro conjI) simp_all
qed

end
